theory Spec2Isabelle
  imports Complex_Main
begin

section \<open>Values, errors and sequencing\<close>

text \<open>
  The coordinates of the source are exact symbolic numbers of the computer algebra
  package. A coordinate is modelled by the real number it denotes; the package's
  structural equality on simplified expressions is modelled by equality of reals, and
  the simplifiers called on construction (\<open>sqrtdenest\<close>, \<open>radsimp\<close>,
  \<open>my_simplify\<close>) are value preserving and so do not appear. Where the source
  would leave the finite reals inside a coordinate (a square root of a negative number,
  a division by zero), the model answers \<open>NotReal\<close>: this is not an exception of
  the source but the border of what the model tracks.

  The exceptions of the source are values of \<open>error\<close>: \<open>ValueError\<close> (raised by
  the constructors, by the arithmetic layer and by unpacking a list of the wrong length),
  \<open>TypeError\<close> (a call with the wrong number of starred arguments),
  \<open>NameError\<close> and \<open>UnboundLocalError\<close> (a name read before it is bound).
\<close>

datatype error = ValueError | TypeError | NameError | UnboundLocalError | NotReal

definition andthen :: "error + 'a \<Rightarrow> ('a \<Rightarrow> error + 'b) \<Rightarrow> error + 'b" where
  "andthen m f = (case m of Inl e \<Rightarrow> Inl e | Inr v \<Rightarrow> f v)"

text \<open>\<open>p1, p2 = xs\<close> raises ValueError unless \<open>xs\<close> has exactly two elements.\<close>

fun unpack2 :: "'a list \<Rightarrow> error + ('a \<times> 'a)" where
  "unpack2 [a, b] = Inr (a, b)"
| "unpack2 _ = Inl ValueError"

definition rsqrt :: "real \<Rightarrow> error + real" where
  "rsqrt v = (if v < 0 then Inl NotReal else Inr (sqrt v))"

text \<open>
  Slope and intercept of a line are computed by a division that the package evaluates
  to complex infinity \<open>zoo\<close> on a vertical line, and \<open>zoo * 0\<close> to \<open>nan\<close>; both
  are ordinary objects there, equal to themselves under \<open>==\<close>.
\<close>

datatype num = Fin real | Zoo | NaN

definition num_div :: "num \<Rightarrow> num \<Rightarrow> num" where
  "num_div a b = (case (a, b) of
      (NaN, _) \<Rightarrow> NaN
    | (_, NaN) \<Rightarrow> NaN
    | (Zoo, Zoo) \<Rightarrow> NaN
    | (Zoo, Fin _) \<Rightarrow> Zoo
    | (Fin _, Zoo) \<Rightarrow> Fin 0
    | (Fin u, Fin v) \<Rightarrow> (if v = 0 then (if u = 0 then NaN else Zoo) else Fin (u / v)))"

definition num_mul :: "num \<Rightarrow> num \<Rightarrow> num" where
  "num_mul a b = (case (a, b) of
      (NaN, _) \<Rightarrow> NaN
    | (_, NaN) \<Rightarrow> NaN
    | (Zoo, Zoo) \<Rightarrow> Zoo
    | (Zoo, Fin v) \<Rightarrow> (if v = 0 then NaN else Zoo)
    | (Fin u, Zoo) \<Rightarrow> (if u = 0 then NaN else Zoo)
    | (Fin u, Fin v) \<Rightarrow> Fin (u * v))"

definition num_add :: "num \<Rightarrow> num \<Rightarrow> num" where
  "num_add a b = (case (a, b) of
      (NaN, _) \<Rightarrow> NaN
    | (_, NaN) \<Rightarrow> NaN
    | (Zoo, Zoo) \<Rightarrow> NaN
    | (Zoo, Fin _) \<Rightarrow> Zoo
    | (Fin _, Zoo) \<Rightarrow> Zoo
    | (Fin u, Fin v) \<Rightarrow> Fin (u + v))"

definition num_sub :: "num \<Rightarrow> num \<Rightarrow> num" where
  "num_sub a b = num_add a (num_mul (Fin (- 1)) b)"

definition fin :: "num \<Rightarrow> error + real" where
  "fin a = (case a of Fin v \<Rightarrow> Inr v | _ \<Rightarrow> Inl NotReal)"

section \<open>Geometric kernel: point.py, line.py, circle.py\<close>

datatype point = Point (px: real) (py: real)

definition isEqual :: "point \<Rightarrow> point \<Rightarrow> bool" where
  "isEqual p q = (px p = px q \<and> py p = py q)"

definition dist_p :: "point \<Rightarrow> point \<Rightarrow> real" where
  "dist_p p1 p2 = sqrt ((px p1 - px p2)\<^sup>2 + (py p1 - py p2)\<^sup>2)"

record line =
  lp1 :: point
  lp2 :: point
  lA :: real
  lB :: real
  lC :: real
  slope :: num
  intercept :: num

definition get_slope :: "point \<Rightarrow> point \<Rightarrow> num" where
  "get_slope p1 p2 = num_div (Fin (py p2 - py p1)) (Fin (px p2 - px p1))"

definition get_intercept :: "point \<Rightarrow> num \<Rightarrow> num" where
  "get_intercept p1 m = num_sub (Fin (py p1)) (num_mul m (Fin (px p1)))"

definition line_of :: "point \<Rightarrow> point \<Rightarrow> line" where
  "line_of p1 p2 =
     \<lparr>lp1 = p1, lp2 = p2, lA = py p1 - py p2, lB = px p2 - px p1,
      lC = px p1 * py p2 - px p2 * py p1,
      slope = get_slope p1 p2,
      intercept = get_intercept p1 (get_slope p1 p2)\<rparr>"

text \<open>The constructor \<open>Line(p1, p2)\<close>: the fields of \<open>line_of\<close>, or ValueError.\<close>

definition Line :: "point \<Rightarrow> point \<Rightarrow> error + line" where
  "Line p1 p2 =
     (if lA (line_of p1 p2) = 0 \<and> lB (line_of p1 p2) = 0 then Inl ValueError
      else Inr (line_of p1 p2))"

definition line_at :: "line \<Rightarrow> real \<Rightarrow> error + point" where
  "line_at l v =
     andthen (fin (num_add (num_mul (slope l) (Fin v)) (intercept l))) (\<lambda>w. Inr (Point v w))"

text \<open>
  \<open>Line.__eq__\<close> compares slope and intercept with the package's \<open>==\<close>, which
  is structural equality of expressions, and the slope and the intercept are quotients
  that no simplifier has seen. Expressions of different values are different, so lines
  whose slopes or intercepts differ in value compare unequal. Where the values agree, the
  answer depends on the expressions: a rational number, \<open>zoo\<close> and \<open>nan\<close> have
  one expression each, and the arithmetic of the package on rational numbers yields it, so
  lines through points with rational coordinates compare equal. With other coordinates
  equal values may be written differently (\<open>sqrt(2)\<close> and
  \<open>(sqrt(2) + 2) / (1 + sqrt(2))\<close>) and compare unequal; the model tracks values
  only and gives no answer there: \<open>None\<close>.
\<close>

definition rational_point :: "point \<Rightarrow> bool" where
  "rational_point p = (px p \<in> \<rat> \<and> py p \<in> \<rat>)"

definition line_eq :: "line \<Rightarrow> line \<Rightarrow> bool option" where
  "line_eq l l' =
     (if slope l \<noteq> slope l' \<or> intercept l \<noteq> intercept l' then Some False
      else if rational_point (lp1 l) \<and> rational_point (lp2 l)
              \<and> rational_point (lp1 l') \<and> rational_point (lp2 l') then Some True
      else None)"

text \<open>
  \<open>Line.get_intersection\<close>. In the parallel branch the source evaluates
  \<open>Point(zoo, zoo)\<close>; line.py imports only \<open>Abs, Matrix, sqrt, sympify\<close> from
  the package, so the name \<open>zoo\<close> is unbound there and the evaluation raises NameError.
\<close>

definition line_get_intersection :: "line \<Rightarrow> line \<Rightarrow> error + point" where
  "line_get_intersection l1 l2 =
     (let d = lA l1 * lB l2 - lB l1 * lA l2 in
      if d = 0 then Inl NameError
      else Inr (Point (inverse d * (lB l2 * (- lC l1) + lB l1 * lC l2))
                      (inverse d * (lA l2 * lC l1 - lA l1 * lC l2))))"

definition line_intersect :: "line \<Rightarrow> line \<Rightarrow> error + point" where
  "line_intersect l l' = line_get_intersection l l'"

definition dist_from_point :: "line \<Rightarrow> point \<Rightarrow> real" where
  "dist_from_point l p = \<bar>lA l * px p + lB l * py p + lC l\<bar> / sqrt ((lA l)\<^sup>2 + (lB l)\<^sup>2)"

record circle =
  center :: point
  other_point :: point
  radius :: real

definition circle_of :: "point \<Rightarrow> point \<Rightarrow> circle" where
  "circle_of c p = \<lparr>center = c, other_point = p, radius = dist_p c p\<rparr>"

definition Circle :: "point \<Rightarrow> point \<Rightarrow> error + circle" where
  "Circle c p = (if isEqual c p then Inl ValueError else Inr (circle_of c p))"

definition get_circle :: "point \<Rightarrow> real \<Rightarrow> error + circle" where
  "get_circle c r = Circle c (Point (px c - r) (py c))"

text \<open>
  \<open>are_expressions_approx_equal\<close> of sympy\_utils.py compares two evaluations to a
  thousand digits with tolerance \<open>1e-20\<close>; the evaluations are taken as exact.
\<close>

definition tol :: real where
  "tol = 1 / 10 ^ 20"

definition are_expressions_approx_equal :: "real \<Rightarrow> real \<Rightarrow> bool" where
  "are_expressions_approx_equal e1 e2 = (\<bar>e1 - e2\<bar> < tol)"

text \<open>
  The closed formula of \<open>Circle.get_intersection\<close> for the two ordinates, term by term
  as in the source, with \<open>cNx\<close>, \<open>cNy\<close>, \<open>rN\<close> for \<open>cN.center.x\<close>,
  \<open>cN.center.y\<close>, \<open>cN.radius\<close>. The three polynomials that occur in both
  ordinates are named: \<open>cc_U\<close> is the argument of \<open>Pow(_, 2)\<close>, \<open>cc_Q\<close> the
  bracket of the denominator and \<open>cc_W\<close> the last factor under the root.
\<close>

definition cc_U :: "real \<Rightarrow> real \<Rightarrow> real \<Rightarrow> real \<Rightarrow> real \<Rightarrow> real \<Rightarrow> real" where
  "cc_U c1x c1y c2x c2y r1 r2 =
     -4 * c1x * c1x * c1y + 4 * c1x * c1x * c2y + 8 * c1x * c1y * c2x - 8 * c1x * c2x * c2y -
     4 * c1y * c1y * c1y + 12 * c1y * c1y * c2y - 4 * c1y * c2x * c2x - 12 * c1y * c2y * c2y
     - 4 * c1y * r1 * r1 + 4 * c1y * r2 * r2 + 4 * c2x * c2x * c2y + 4 * c2y * c2y * c2y + 4
     * c2y * r1 * r1 - 4 * c2y * r2 * r2"

definition cc_Q :: "real \<Rightarrow> real \<Rightarrow> real \<Rightarrow> real \<Rightarrow> real" where
  "cc_Q c1x c1y c2x c2y =
     4 * c1x * c1x - 8 * c1x * c2x + 4 * c1y * c1y - 8 * c1y * c2y + 4 * c2x * c2x + 4 * c2y
     * c2y"

definition cc_W :: "real \<Rightarrow> real \<Rightarrow> real \<Rightarrow> real \<Rightarrow> real \<Rightarrow> real \<Rightarrow> real" where
  "cc_W c1x c1y c2x c2y r1 r2 =
     c1x * c1x * c1x * c1x - 4 * c1x * c1x * c1x * c2x + 2 * c1x * c1x * c1y * c1y - 4 * c1x
     * c1x * c1y * c2y + 6 * c1x * c1x * c2x * c2x + 2 * c1x * c1x * c2y * c2y - 2 * c1x *
     c1x * r1 * r1 - 2 * c1x * c1x * r2 * r2 - 4 * c1x * c1y * c1y * c2x + 8 * c1x * c1y *
     c2x * c2y - 4 * c1x * c2x * c2x * c2x - 4 * c1x * c2x * c2y * c2y + 4 * c1x * c2x * r1 *
     r1 + 4 * c1x * c2x * r2 * r2 + c1y * c1y * c1y * c1y - 4 * c1y * c1y * c1y * c2y + 2 *
     c1y * c1y * c2x * c2x + 6 * c1y * c1y * c2y * c2y + 2 * c1y * c1y * r1 * r1 - 2 * c1y *
     c1y * r2 * r2 - 4 * c1y * c2x * c2x * c2y - 4 * c1y * c2y * c2y * c2y - 4 * c1y * c2y *
     r1 * r1 + 4 * c1y * c2y * r2 * r2 + c2x * c2x * c2x * c2x + 2 * c2x * c2x * c2y * c2y -
     2 * c2x * c2x * r1 * r1 - 2 * c2x * c2x * r2 * r2 + c2y * c2y * c2y * c2y + 2 * c2y *
     c2y * r1 * r1 - 2 * c2y * c2y * r2 * r2 + r1 * r1 * r1 * r1 - 2 * r1 * r1 * r2 * r2 + r2
     * r2 * r2 * r2"

definition cc_radicand :: "real \<Rightarrow> real \<Rightarrow> real \<Rightarrow> real \<Rightarrow> real \<Rightarrow> real \<Rightarrow> real" where
  "cc_radicand c1x c1y c2x c2y r1 r2 =
     (cc_U c1x c1y c2x c2y r1 r2)\<^sup>2 - 4 * cc_Q c1x c1y c2x c2y * cc_W c1x c1y c2x c2y r1 r2"

definition cc_y1 :: "real \<Rightarrow> real \<Rightarrow> real \<Rightarrow> real \<Rightarrow> real \<Rightarrow> real \<Rightarrow> real" where
  "cc_y1 c1x c1y c2x c2y r1 r2 =
     c1y - (4 * c1x * c1x * c1y - 4 * c1x * c1x * c2y - sqrt (cc_radicand c1x c1y c2x c2y r1 r2)
     - 8 * c1x * c1y * c2x + 8 * c1x * c2x * c2y + 4 * c1y * c1y * c1y - 12 * c1y * c1y * c2y
     + 4 * c1y * c2x * c2x + 12 * c1y * c2y * c2y + 4 * c1y * r1 * r1 - 4 * c1y * r2 * r2 - 4
     * c2x * c2x * c2y - 4 * c2y * c2y * c2y - 4 * c2y * r1 * r1 + 4 * c2y * r2 * r2)
     / (2 * cc_Q c1x c1y c2x c2y)"

definition cc_y2 :: "real \<Rightarrow> real \<Rightarrow> real \<Rightarrow> real \<Rightarrow> real \<Rightarrow> real \<Rightarrow> real" where
  "cc_y2 c1x c1y c2x c2y r1 r2 =
     c1y - ((4 * c1x * c1x * c1y - 4 * c1x * c1x * c2y + sqrt (cc_radicand c1x c1y c2x c2y r1 r2))
     - 8 * c1x * c1y * c2x + 8 * c1x * c2x * c2y + 4 * c1y * c1y * c1y - 12 * c1y * c1y * c2y
     + 4 * c1y * c2x * c2x + 12 * c1y * c2y * c2y + 4 * c1y * r1 * r1 - 4 * c1y * r2 * r2 - 4
     * c2x * c2x * c2y - 4 * c2y * c2y * c2y - 4 * c2y * r1 * r1 + 4 * c2y * r2 * r2)
     / (2 * cc_Q c1x c1y c2x c2y)"

text \<open>
  The nested loops that pick the abscissa: \<open>break\<close> leaves the inner loop only, so the
  name keeps the last candidate of the first list that is close to some candidate of the
  second list, and stays unbound when there is none.
\<close>

definition select_x :: "real list \<Rightarrow> real list \<Rightarrow> real option" where
  "select_x xs1 xs2 =
     foldl (\<lambda>acc cur_x1.
              if \<exists>cur_x2 \<in> set xs2. are_expressions_approx_equal cur_x1 cur_x2
              then Some cur_x1 else acc) None xs1"

definition bound :: "'a option \<Rightarrow> error + 'a" where
  "bound v = (case v of None \<Rightarrow> Inl UnboundLocalError | Some w \<Rightarrow> Inr w)"

definition circle_get_intersection :: "circle \<Rightarrow> circle \<Rightarrow> error + point list" where
  "circle_get_intersection c1 c2 =
     (let c1x = px (center c1); c1y = py (center c1);
          c2x = px (center c2); c2y = py (center c2);
          r1 = radius c1; r2 = radius c2 in
      if dist_p (center c1) (center c2) < r1 + r2 then
        if cc_Q c1x c1y c2x c2y = 0 \<or> cc_radicand c1x c1y c2x c2y r1 r2 < 0 then Inl NotReal
        else
          let y1 = cc_y1 c1x c1y c2x c2y r1 r2;
              y2 = cc_y2 c1x c1y c2x c2y r1 r2 in
          andthen (rsqrt (r1\<^sup>2 - (y1 - c1y)\<^sup>2)) (\<lambda>temp1.
            if are_expressions_approx_equal y1 y2
            then Inr [Point (c1x + temp1) y1, Point (c1x - temp1) y2]
            else
              andthen (rsqrt (r2\<^sup>2 - (y1 - c2y)\<^sup>2)) (\<lambda>temp2.
              let x1 = select_x [c1x + temp1, c1x - temp1] [c2x + temp2, c2x - temp2] in
              andthen (rsqrt (r1\<^sup>2 - (y2 - c1y)\<^sup>2)) (\<lambda>temp1'.
              andthen (rsqrt (r2\<^sup>2 - (y2 - c2y)\<^sup>2)) (\<lambda>temp2'.
              let x2 = select_x [c1x + temp1', c1x - temp1'] [c2x + temp2', c2x - temp2'] in
              andthen (bound x1) (\<lambda>x1.
              andthen (bound x2) (\<lambda>x2.
              Inr [Point x1 y1, Point x2 y2]))))))
      else if dist_p (center c1) (center c2) - (r1 + r2) = 0 then
        andthen (Line (center c1) (center c2)) (\<lambda>center_line.
        andthen (fin (num_div (Fin (r1\<^sup>2))
                   (num_add (Fin 1) (num_mul (slope center_line) (slope center_line))))) (\<lambda>q.
        let delta_x = sqrt q;
            v = (if c1x < c2x then c1x + delta_x else c1x - delta_x) in
        andthen (line_at center_line v) (\<lambda>p. Inr [p])))
      else Inr [])"

definition circle_intersect :: "circle \<Rightarrow> circle \<Rightarrow> error + point list" where
  "circle_intersect c c' = circle_get_intersection c c'"

text \<open>
  \<open>Circle.intersect_with_line\<close>. The radicands are non-negative in the branches where
  they are taken, so the plain root is the source's root.
  The slope form is only used when neither coefficient vanishes.
\<close>

definition iwl_radicand :: "real \<Rightarrow> real \<Rightarrow> real \<Rightarrow> real \<Rightarrow> real \<Rightarrow> real" where
  "iwl_radicand cx cy r m k =
     - cx\<^sup>2 * m\<^sup>2 + 2 * cy * (cx * m + k) - 2 * cx * k * m - cy\<^sup>2 - k\<^sup>2
     + (m * r)\<^sup>2 + r\<^sup>2"

definition intersect_with_line :: "circle \<Rightarrow> line \<Rightarrow> error + point list" where
  "intersect_with_line c l =
     (let cx = px (center c); cy = py (center c); r = radius c;
          d = dist_from_point l (center c) in
      if d < r then
        if lA l = 0 then
          let y = - lC l / lB l; xs = sqrt (r\<^sup>2 - (y - cy)\<^sup>2) in
          Inr [Point (cx + xs) y, Point (cx - xs) y]
        else if lB l = 0 then
          let x = - lC l / lA l; ys = sqrt (r\<^sup>2 - (x - cx)\<^sup>2) in
          Inr [Point x (cy + ys), Point x (cy - ys)]
        else
          andthen (fin (slope l)) (\<lambda>m. andthen (fin (intercept l)) (\<lambda>k.
          let x1 = (- sqrt (iwl_radicand cx cy r m k) + cx + cy * m - k * m) / (m\<^sup>2 + 1);
              x2 = (sqrt (iwl_radicand cx cy r m k) + cx + cy * m - k * m) / (m\<^sup>2 + 1) in
          andthen (line_at l x1) (\<lambda>q1. andthen (line_at l x2) (\<lambda>q2. Inr [q1, q2]))))
      else if d - r = 0 then
        if lA l = 0 then Inr [Point cx (- lC l / lB l)]
        else if lB l = 0 then Inr [Point (- lC l / lA l) cy]
        else
          andthen (fin (slope l)) (\<lambda>m. andthen (fin (intercept l)) (\<lambda>k.
          let x = (- sqrt (iwl_radicand cx cy r m k) + cx + cy * m - k * m) / (m\<^sup>2 + 1) in
          andthen (line_at l x) (\<lambda>q. Inr [q])))
      else Inr [])"

section \<open>Construction toolbox: cas\_utils.py\<close>

text \<open>\<open>Line(*ps)\<close>: the constructor takes exactly two points.\<close>

fun Line_star :: "point list \<Rightarrow> error + line" where
  "Line_star [a, b] = Line a b"
| "Line_star _ = Inl TypeError"

definition get_perpendicular_bisector :: "line \<Rightarrow> error + line" where
  "get_perpendicular_bisector l =
     andthen (Circle (lp1 l) (lp2 l)) (\<lambda>c1.
     andthen (Circle (lp2 l) (lp1 l)) (\<lambda>c2.
     andthen (circle_intersect c1 c2) Line_star))"

definition get_midpoint :: "line \<Rightarrow> error + point" where
  "get_midpoint l = andthen (get_perpendicular_bisector l) (\<lambda>l_perp. line_intersect l l_perp)"

fun generate_n_loop :: "nat \<Rightarrow> line \<Rightarrow> point \<Rightarrow> point \<Rightarrow> error + point" where
  "generate_n_loop 0 l p_cur p_prev = Inr p_prev"
| "generate_n_loop (Suc k) l p_cur p_prev =
     andthen (Circle p_cur p_prev) (\<lambda>c.
     andthen (intersect_with_line c l) (\<lambda>ps.
     andthen (unpack2 ps) (\<lambda>(p1, p2).
       if isEqual p_prev p1 then generate_n_loop k l p2 p_cur
       else generate_n_loop k l p1 p_cur)))"

definition generate_n :: "int \<Rightarrow> point \<Rightarrow> point \<Rightarrow> error + point" where
  "generate_n n origin unit =
     andthen (Line origin unit) (\<lambda>l. generate_n_loop (nat n) l unit origin)"

definition get_perpendicular_to_line_through_point :: "point \<Rightarrow> line \<Rightarrow> error + line" where
  "get_perpendicular_to_line_through_point p l =
     (if dist_from_point l p > 0 then
        andthen (Circle p (lp1 l)) (\<lambda>c.
        andthen (intersect_with_line c l) (\<lambda>inter.
        andthen (if length inter < 2
                 then andthen (Circle p (lp2 l)) (\<lambda>c. intersect_with_line c l)
                 else Inr inter) (\<lambda>inter.
        andthen (unpack2 inter) (\<lambda>(p1, p2).
        andthen (Circle p1 p) (\<lambda>c1.
        andthen (Circle p2 p) (\<lambda>c2.
        andthen (circle_intersect c1 c2) (\<lambda>ps.
        andthen (unpack2 ps) (\<lambda>(p1, p2). Line p1 p2))))))))
      else
        andthen (if isEqual p (lp1 l) then Circle p (lp2 l) else Circle p (lp1 l)) (\<lambda>c.
        andthen (intersect_with_line c l) (\<lambda>ps.
        andthen (unpack2 ps) (\<lambda>(p1, p2).
        andthen (Line p p1) (\<lambda>pp1.
        andthen (get_perpendicular_bisector pp1) (\<lambda>l1.
        andthen (Line p p2) (\<lambda>pp2.
        andthen (get_perpendicular_bisector pp2) (\<lambda>l2.
        andthen (intersect_with_line c l1) (\<lambda>ps1.
        andthen (unpack2 ps1) (\<lambda>(p11, p12).
        andthen (intersect_with_line c l2) (\<lambda>ps2.
        andthen (unpack2 ps2) (\<lambda>(p21, p22).
          if dist_p p11 p21 < dist_p p11 p22
          then andthen (Line p11 p21) get_perpendicular_bisector
          else andthen (Line p12 p22) get_perpendicular_bisector))))))))))))"

definition get_parallel_to_line_through_point :: "point \<Rightarrow> line \<Rightarrow> error + line" where
  "get_parallel_to_line_through_point p l =
     andthen (get_perpendicular_to_line_through_point p l) (\<lambda>l_perp.
     andthen (line_intersect l l_perp) (\<lambda>p_tag.
     andthen (Circle p p_tag) (\<lambda>c.
     andthen (intersect_with_line c l_perp) (\<lambda>ps.
     andthen (Line_star ps) get_perpendicular_bisector))))"

definition get_y_axis :: "point \<Rightarrow> point \<Rightarrow> error + line" where
  "get_y_axis origin unit =
     andthen (Line origin unit) (\<lambda>l. get_perpendicular_to_line_through_point origin l)"

definition mirror_point :: "point \<Rightarrow> line \<Rightarrow> error + point" where
  "mirror_point p l =
     andthen (get_perpendicular_to_line_through_point p l) (\<lambda>l_perp.
     andthen (line_intersect l l_perp) (\<lambda>a.
     andthen (Circle a p) (\<lambda>c.
     andthen (intersect_with_line c l_perp) (\<lambda>ps.
     andthen (unpack2 ps) (\<lambda>(p1, p2).
       if isEqual p1 p then Inr p2 else Inr p1)))))"

definition mirror_point_on_x_axis :: "point \<Rightarrow> point \<Rightarrow> error + point" where
  "mirror_point_on_x_axis p origin =
     (if isEqual p origin then Inr origin
      else
        andthen (Circle origin p) (\<lambda>c.
        andthen (Line origin p) (\<lambda>l.
        andthen (intersect_with_line c l) (\<lambda>ps.
        andthen (unpack2 ps) (\<lambda>(p1, p2).
          Inr (if isEqual p2 p then p1 else p2))))))"

definition double_point_on_x_axis :: "point \<Rightarrow> point \<Rightarrow> error + point" where
  "double_point_on_x_axis origin p =
     (if isEqual p origin then Inr origin
      else
        andthen (Circle p origin) (\<lambda>c.
        andthen (Line origin p) (\<lambda>l.
        andthen (intersect_with_line c l) (\<lambda>ps.
        andthen (unpack2 ps) (\<lambda>(p1, p2).
          Inr (if isEqual p2 origin then p1 else p2))))))"

definition half_point_on_x_axis :: "point \<Rightarrow> point \<Rightarrow> error + point" where
  "half_point_on_x_axis origin p =
     (if isEqual p origin then Inr origin
      else andthen (Line origin p) get_midpoint)"

section \<open>Arithmetic layer: casnum.py\<close>

datatype casnum = CasNum (pnt: point)

definition origin :: point where
  "origin = Point 0 0"

definition unit :: point where
  "unit = Point 1 0"

text \<open>
  The module constants \<open>x_axis\<close> and \<open>y_axis\<close> are built once when the module is
  loaded; a use of the constant is a use of the outcome of that construction.
\<close>

definition x_axis :: "error + line" where
  "x_axis = Line origin unit"

definition y_axis :: "error + line" where
  "y_axis = get_y_axis origin unit"

definition ALLOW_CONSTRUCT_CIRCLE_FROM_CENTER_AND_RADIUS :: bool where
  "ALLOW_CONSTRUCT_CIRCLE_FROM_CENTER_AND_RADIUS = True"

definition zero :: casnum where
  "zero = CasNum origin"

definition one :: casnum where
  "one = CasNum unit"

definition cn_isEqual :: "casnum \<Rightarrow> casnum \<Rightarrow> bool" where
  "cn_isEqual a b = isEqual (pnt a) (pnt b)"

definition cn_gt :: "casnum \<Rightarrow> casnum \<Rightarrow> bool" where
  "cn_gt a b = (px (pnt a) > px (pnt b))"

definition cn_lt :: "casnum \<Rightarrow> casnum \<Rightarrow> bool" where
  "cn_lt a b = cn_gt b a"

definition cn_ge :: "casnum \<Rightarrow> casnum \<Rightarrow> bool" where
  "cn_ge a b = (cn_gt a b \<or> cn_isEqual a b)"

definition cn_le :: "casnum \<Rightarrow> casnum \<Rightarrow> bool" where
  "cn_le a b = cn_ge b a"

definition cn_eq :: "casnum \<Rightarrow> casnum \<Rightarrow> bool" where
  "cn_eq a b = isEqual (pnt a) (pnt b)"

definition from_num :: "int \<Rightarrow> error + casnum" where
  "from_num n =
     (if n > 0 then andthen (generate_n n origin unit) (\<lambda>p. Inr (CasNum p))
      else Inr (CasNum (Point 0 0)))"

definition copy :: "casnum \<Rightarrow> casnum" where
  "copy a = CasNum (pnt a)"

definition mul2 :: "casnum \<Rightarrow> error + casnum" where
  "mul2 a = andthen (double_point_on_x_axis origin (pnt a)) (\<lambda>p. Inr (CasNum p))"

definition add :: "casnum \<Rightarrow> casnum \<Rightarrow> error + casnum" where
  "add self other =
     (if cn_eq self zero then Inr (copy other)
      else if cn_eq other zero then Inr (copy self)
      else if cn_eq self other then mul2 self
      else if ALLOW_CONSTRUCT_CIRCLE_FROM_CENTER_AND_RADIUS then
        andthen (get_circle (pnt self) (dist_p origin (pnt other))) (\<lambda>c.
        andthen x_axis (\<lambda>xa.
        andthen (intersect_with_line c xa) (\<lambda>ps.
        andthen (unpack2 ps) (\<lambda>(p1, p2).
          Inr (CasNum (if cn_gt other zero
                       then (if px p1 > px p2 then p1 else p2)
                       else (if px p1 < px p2 then p1 else p2)))))))
      else
        andthen (Line (pnt self) (pnt other)) (\<lambda>l.
        andthen (get_midpoint l) (\<lambda>midpoint.
          if isEqual midpoint origin then Inr (copy zero)
          else andthen (double_point_on_x_axis origin midpoint) (\<lambda>p. Inr (CasNum p)))))"

definition neg :: "casnum \<Rightarrow> error + casnum" where
  "neg self = andthen (mirror_point_on_x_axis (pnt self) origin) (\<lambda>p. Inr (CasNum p))"

definition sub :: "casnum \<Rightarrow> casnum \<Rightarrow> error + casnum" where
  "sub self other =
     (if cn_isEqual self other then Inr (copy zero)
      else andthen (neg other) (\<lambda>m. add self m))"

definition cn_abs :: "casnum \<Rightarrow> error + casnum" where
  "cn_abs a = (if cn_lt a zero then neg a else Inr a)"

text \<open>The module constant \<open>two = one + one\<close>.\<close>

definition two :: "error + casnum" where
  "two = add one one"

text \<open>
  \<open>__truediv__\<close> and \<open>__mul__\<close>. The assignment to \<open>CasNum.total_time\<close> is
  bookkeeping and has no part in the result.
\<close>

definition truediv :: "casnum \<Rightarrow> casnum \<Rightarrow> error + casnum" where
  "truediv self other =
     (if cn_isEqual other zero then Inl ValueError
      else
        andthen (if cn_lt (copy self) zero then neg (copy self) else Inr (copy self)) (\<lambda>a_cpy.
        andthen (if cn_lt (copy other) zero then neg (copy other) else Inr (copy other)) (\<lambda>b_cpy.
        if cn_eq a_cpy zero then Inr (copy zero)
        else if cn_eq b_cpy zero then Inr (copy zero)
        else
          andthen (mirror_point_on_x_axis unit origin) (\<lambda>neg_unit.
          andthen (Circle origin (pnt a_cpy)) (\<lambda>c.
          andthen y_axis (\<lambda>ya.
          andthen (intersect_with_line c ya) (\<lambda>ps.
          andthen (unpack2 ps) (\<lambda>(p1, p2).
          let p = (if py p1 > py p2 then p1 else p2) in
          andthen (Line p (pnt b_cpy)) (\<lambda>pb.
          andthen (get_parallel_to_line_through_point neg_unit pb) (\<lambda>l.
          andthen (line_intersect ya l) (\<lambda>p_div.
          andthen (Circle origin p_div) (\<lambda>c'.
          andthen x_axis (\<lambda>xa.
          andthen (intersect_with_line c' xa) (\<lambda>ps'.
          andthen (unpack2 ps') (\<lambda>(p1, p2).
          let ret = (if px p1 > 0 then CasNum p1 else CasNum p2) in
          andthen (if cn_lt self zero then neg ret else Inr ret) (\<lambda>ret.
          andthen (if cn_lt other zero then neg ret else Inr ret) Inr))))))))))))))))"

definition mul :: "casnum \<Rightarrow> casnum \<Rightarrow> error + casnum" where
  "mul self other =
     (if cn_isEqual other one then Inr self
      else if cn_isEqual self one then Inr other
      else
        andthen (if cn_lt (copy self) zero then neg (copy self) else Inr (copy self)) (\<lambda>a_cpy.
        andthen (if cn_lt (copy other) zero then neg (copy other) else Inr (copy other)) (\<lambda>b_cpy.
        if cn_isEqual a_cpy zero then Inr (copy zero)
        else if cn_isEqual b_cpy zero then Inr (copy zero)
        else
          andthen y_axis (\<lambda>ya.
          andthen (mirror_point unit ya) (\<lambda>neg_unit.
          andthen (Circle origin (pnt a_cpy)) (\<lambda>c.
          andthen (intersect_with_line c ya) (\<lambda>ps.
          andthen (unpack2 ps) (\<lambda>(p1, p2).
          let p = (if py p1 > py p2 then p1 else p2) in
          andthen (Line p neg_unit) (\<lambda>pn.
          andthen (get_parallel_to_line_through_point (pnt b_cpy) pn) (\<lambda>l.
          andthen (line_intersect ya l) (\<lambda>p_mul.
          andthen (Circle origin p_mul) (\<lambda>c'.
          andthen x_axis (\<lambda>xa.
          andthen (intersect_with_line c' xa) (\<lambda>ps'.
          andthen (unpack2 ps') (\<lambda>(p1, p2).
          let ret = (if px p1 > 0 then CasNum p1 else CasNum p2) in
          andthen (if cn_lt self zero then neg ret else Inr ret) (\<lambda>ret.
          andthen (if cn_lt other zero then neg ret else Inr ret) Inr))))))))))))))))"

text \<open>\<open>CasNum.sqrt\<close>; the last line unpacks lists, which raises on a tangent line.\<close>

definition cn_sqrt :: "casnum \<Rightarrow> error + casnum" where
  "cn_sqrt self =
     (if cn_lt self zero then Inl ValueError
      else
        andthen (add self one) (\<lambda>s.
        andthen two (\<lambda>tw.
        andthen (truediv s tw) (\<lambda>p.
        andthen (sub p one) (\<lambda>q.
        andthen (Circle origin (pnt p)) (\<lambda>c.
        andthen x_axis (\<lambda>xa.
        andthen (get_perpendicular_to_line_through_point (pnt q) xa) (\<lambda>l.
        andthen (intersect_with_line c l) (\<lambda>ps.
        andthen (unpack2 ps) (\<lambda>(p1, p2).
        let p = (if py p1 > py p2 then p1 else p2) in
        andthen (Circle (pnt q) p) (\<lambda>c.
        andthen (intersect_with_line c xa) (\<lambda>ps.
        andthen (unpack2 ps) (\<lambda>(p1, p2).
        let p = (if px p1 > px p2 then p1 else p2) in
        sub (CasNum p) q)))))))))))))"

subsection \<open>Loops of the arithmetic layer\<close>

text \<open>
  A \<open>while\<close> loop of the source need not end (doubling the origin never exceeds a
  positive number), so the functions built on one return an \<open>option\<close>: \<open>None\<close>
  when the loop runs forever, \<open>Some (Inl e)\<close> when the source raises and
  \<open>Some (Inr v)\<close> when it returns \<open>v\<close>.
\<close>

definition obind :: "(error + 'a) option \<Rightarrow> ('a \<Rightarrow> (error + 'b) option) \<Rightarrow> (error + 'b) option" where
  "obind m f = (case m of None \<Rightarrow> None | Some (Inl e) \<Rightarrow> Some (Inl e) | Some (Inr v) \<Rightarrow> f v)"

partial_function (option) double_until_gt_loop :: "casnum \<Rightarrow> bool \<Rightarrow> casnum \<Rightarrow> (error + casnum) option" where
  "double_until_gt_loop a strict to_rem =
     (if cn_gt a to_rem \<or> (\<not> strict \<and> cn_eq a to_rem)
      then (case mul2 to_rem of Inl e \<Rightarrow> Some (Inl e) | Inr t \<Rightarrow> double_until_gt_loop a strict t)
      else Some (Inr to_rem))"

definition double_until_gt :: "casnum \<Rightarrow> casnum \<Rightarrow> bool \<Rightarrow> (error + casnum) option" where
  "double_until_gt a b strict = double_until_gt_loop a strict (copy b)"

text \<open>One round of the loop of \<open>__mod__\<close>, and the loop.\<close>

definition mod_step :: "casnum \<Rightarrow> casnum \<Rightarrow> (error + casnum) option" where
  "mod_step abs_b remainder =
     obind (Some (cn_abs remainder)) (\<lambda>ar.
     obind (double_until_gt ar abs_b True) (\<lambda>to_rem.
       if cn_gt remainder zero then Some (sub remainder to_rem)
       else Some (add remainder to_rem)))"

partial_function (option) mod_loop :: "casnum \<Rightarrow> casnum \<Rightarrow> (error + casnum) option" where
  "mod_loop abs_b remainder =
     (case cn_abs remainder of
        Inl e \<Rightarrow> Some (Inl e)
      | Inr ar \<Rightarrow>
          if cn_ge ar abs_b then
            (case mod_step abs_b remainder of
               None \<Rightarrow> None
             | Some (Inl e) \<Rightarrow> Some (Inl e)
             | Some (Inr r) \<Rightarrow> mod_loop abs_b r)
          else Some (Inr remainder))"

definition cn_mod :: "casnum \<Rightarrow> casnum \<Rightarrow> (error + casnum) option" where
  "cn_mod self other =
     (if cn_isEqual other zero then Some (Inl ValueError)
      else
        obind (Some (cn_abs other)) (\<lambda>abs_b.
        obind (mod_loop abs_b (copy self)) (\<lambda>remainder.
          if cn_lt other zero \<and> cn_gt remainder zero then Some (sub remainder abs_b)
          else if cn_gt other zero \<and> cn_lt remainder zero then Some (add remainder abs_b)
          else Some (Inr remainder))))"


text \<open>
  \<open>get_n\<close> reads the binary digits of \<open>\<bar>n\<bar>\<close> from the least significant one;
  \<open>bin(0)\<close> has the single digit 0.
\<close>

fun bin_rev :: "nat \<Rightarrow> bool list" where
  "bin_rev n = (if n < 2 then [n = 1] else (n mod 2 = 1) # bin_rev (n div 2))"

declare bin_rev.simps [simp del]

fun get_n_loop :: "bool list \<Rightarrow> casnum \<Rightarrow> casnum \<Rightarrow> error + casnum" where
  "get_n_loop [] ret cur = Inr ret"
| "get_n_loop (b # bs) ret cur =
     andthen (if b then add ret cur else Inr ret) (\<lambda>ret.
     andthen (mul2 cur) (\<lambda>cur. get_n_loop bs ret cur))"

definition get_n :: "int \<Rightarrow> error + casnum" where
  "get_n n =
     andthen (get_n_loop (bin_rev (nat \<bar>n\<bar>)) (copy zero) (CasNum unit)) (\<lambda>ret.
     if n < 0 then neg ret else Inr ret)"



definition half :: "casnum \<Rightarrow> error + casnum" where
  "half a = andthen (half_point_on_x_axis origin (pnt a)) (\<lambda>p. Inr (CasNum p))"

fun rshift_loop :: "nat \<Rightarrow> casnum \<Rightarrow> casnum \<Rightarrow> (error + casnum) option" where
  "rshift_loop 0 tw cpy_a = Some (Inr cpy_a)"
| "rshift_loop (Suc i) tw cpy_a =
     obind (cn_mod cpy_a tw) (\<lambda>r.
       if cn_isEqual r zero then obind (Some (half cpy_a)) (rshift_loop i tw)
       else obind (Some (sub cpy_a one)) (\<lambda>c. obind (Some (half c)) (rshift_loop i tw)))"

definition rshift :: "casnum \<Rightarrow> int \<Rightarrow> (error + casnum) option" where
  "rshift self i = obind (Some (get_n 2)) (\<lambda>tw. rshift_loop (nat i) tw (copy self))"

text \<open>One round of the loop of \<open>pow_mod\<close> (square and multiply), and the loop.\<close>

definition pow_mod_step ::
  "casnum \<Rightarrow> casnum \<Rightarrow> casnum \<times> casnum \<times> casnum \<Rightarrow> (error + casnum \<times> casnum \<times> casnum) option" where
  "pow_mod_step n tw s =
     (case s of (result, base, b_cpy) \<Rightarrow>
        obind (cn_mod b_cpy tw) (\<lambda>bit.
        obind (if cn_isEqual bit one
               then obind (Some (mul result base)) (\<lambda>result.
                      if cn_gt result n then cn_mod result n else Some (Inr result))
               else Some (Inr result)) (\<lambda>result.
        obind (Some (mul base base)) (\<lambda>base.
        obind (if cn_gt base n then cn_mod base n else Some (Inr base)) (\<lambda>base.
        obind (rshift b_cpy 1) (\<lambda>b_cpy.
        Some (Inr (result, base, b_cpy))))))))"

partial_function (option) pow_mod_loop ::
  "casnum \<Rightarrow> casnum \<Rightarrow> casnum \<times> casnum \<times> casnum \<Rightarrow> (error + casnum) option" where
  "pow_mod_loop n tw s =
     (if cn_gt (snd (snd s)) zero then
        (case pow_mod_step n tw s of
           None \<Rightarrow> None
         | Some (Inl e) \<Rightarrow> Some (Inl e)
         | Some (Inr s') \<Rightarrow> pow_mod_loop n tw s')
      else Some (Inr (fst s)))"

definition pow_mod :: "casnum \<Rightarrow> casnum \<Rightarrow> casnum \<Rightarrow> (error + casnum) option" where
  "pow_mod a b n =
     obind (Some (add one one)) (\<lambda>tw. pow_mod_loop n tw (one, a, copy b))"

text \<open>
  The helper \<open>cn\<close> of the test suite: \<open>get_n\<close> for a non-negative integer, the flipped
  abscissa of \<open>get_n (- n)\<close> for a negative one.
\<close>

definition cn :: "int \<Rightarrow> error + casnum" where
  "cn n =
     (if n \<ge> 0 then get_n n
      else andthen (get_n (- n)) (\<lambda>c. Inr (CasNum (Point (- px (pnt c)) (py (pnt c))))))"


section \<open>Expressions the claims are about\<close>

text \<open>\<open>Line(Point(0,0), Point(1,0)).intersect(Line(Point(0,1), Point(1,1)))\<close>\<close>

definition parallel_lines_intersection :: "error + point" where
  "parallel_lines_intersection =
     andthen (Line (Point 0 0) (Point 1 0)) (\<lambda>l1.
     andthen (Line (Point 0 1) (Point 1 1)) (\<lambda>l2. line_intersect l1 l2))"

text \<open>
  \<open>Line(p1, p2) == Line(q1, q2)\<close>, and what it is compared with: the points
  \<open>q1\<close> and \<open>q2\<close> satisfy the equation \<open>A x + B y + C = 0\<close> of the line
  through \<open>p1\<close> and \<open>p2\<close>, that is, both pairs span the same geometric line.
\<close>

definition lines_equal :: "point \<Rightarrow> point \<Rightarrow> point \<Rightarrow> point \<Rightarrow> error + bool option" where
  "lines_equal p1 p2 q1 q2 =
     andthen (Line p1 p2) (\<lambda>l. andthen (Line q1 q2) (\<lambda>l'. Inr (line_eq l l')))"

definition on_line_through :: "point \<Rightarrow> point \<Rightarrow> point \<Rightarrow> bool" where
  "on_line_through p1 p2 q =
     ((py p1 - py p2) * px q + (px p2 - px p1) * py q + (px p1 * py p2 - px p2 * py p1) = 0)"

definition same_geometric_line :: "point \<Rightarrow> point \<Rightarrow> point \<Rightarrow> point \<Rightarrow> bool" where
  "same_geometric_line p1 p2 q1 q2 = (on_line_through p1 p2 q1 \<and> on_line_through p1 p2 q2)"

text \<open>Both lines are vertical and neither is the line \<open>x = 0\<close>.\<close>

definition vertical_off_origin :: "point \<Rightarrow> point \<Rightarrow> point \<Rightarrow> point \<Rightarrow> bool" where
  "vertical_off_origin p1 p2 q1 q2 =
     (px p1 = px p2 \<and> px q1 = px q2 \<and> px p1 \<noteq> 0 \<and> px q1 \<noteq> 0)"

text \<open>
  \<open>Circle(Point(0,0), Point(3,0)).intersect(Circle(Point(1,0), Point(2,0)))\<close>: the
  second circle lies strictly inside the first.
\<close>

definition contained_circles_intersection :: "error + point list" where
  "contained_circles_intersection =
     andthen (Circle (Point 0 0) (Point 3 0)) (\<lambda>c1.
     andthen (Circle (Point 1 0) (Point 2 0)) (\<lambda>c2. circle_intersect c1 c2))"

text \<open>
  A CasNum lies on the x-axis; whatever an operation returns lies on the x-axis (an
  operation that raises, or does not return, returns nothing).
\<close>

definition on_x_axis :: "casnum \<Rightarrow> bool" where
  "on_x_axis c = (py (pnt c) = 0)"

definition returns_on_axis :: "error + casnum \<Rightarrow> bool" where
  "returns_on_axis r = (case r of Inl e \<Rightarrow> True | Inr c \<Rightarrow> on_x_axis c)"

definition yields_on_axis :: "(error + casnum) option \<Rightarrow> bool" where
  "yields_on_axis r = (case r of None \<Rightarrow> True | Some v \<Rightarrow> returns_on_axis v)"




section \<open>Auxiliary notions of the proofs\<close>

text \<open>
  With \<open>D2\<close> the squared distance of the centres, \<open>cc_K\<close> is
  \<open>D2 + r1\<^sup>2 - r2\<^sup>2\<close>; the polynomials of the closed formula are products of it.
\<close>

definition cc_K :: "real \<Rightarrow> real \<Rightarrow> real \<Rightarrow> real \<Rightarrow> real \<Rightarrow> real \<Rightarrow> real" where
  "cc_K c1x c1y c2x c2y r1 r2 = (c1x - c2x)\<^sup>2 + (c1y - c2y)\<^sup>2 + r1\<^sup>2 - r2\<^sup>2"


text \<open>The CasNum of an integer: the point of the x-axis with that abscissa.\<close>

definition iv :: "int \<Rightarrow> casnum" where
  "iv n = CasNum (Point (of_int n) 0)"

text \<open>Slope and intercept of two lines agree in value.\<close>

definition values_equal :: "line \<Rightarrow> line \<Rightarrow> bool" where
  "values_equal l l' = (slope l = slope l' \<and> intercept l = intercept l')"

definition lines_values_equal :: "point \<Rightarrow> point \<Rightarrow> point \<Rightarrow> point \<Rightarrow> error + bool" where
  "lines_values_equal p1 p2 q1 q2 =
     andthen (Line p1 p2) (\<lambda>l. andthen (Line q1 q2) (\<lambda>l'. Inr (values_equal l l')))"


section \<open>Basic facts\<close>

lemma andthen_simps [simp]: "andthen (Inl e) f = Inl e" "andthen (Inr v) f = f v"
  by (simp_all add: andthen_def)

lemma line_get_intersection_parallel:
  "lA l1 * lB l2 - lB l1 * lA l2 = 0 \<Longrightarrow> line_get_intersection l1 l2 = Inl NameError"
  by (simp add: line_get_intersection_def)

lemma dist_p_horizontal [simp]: "dist_p (Point a c) (Point b c) = \<bar>a - b\<bar>"
  by (simp add: dist_p_def)

lemma disjoint_circles_empty:
  "dist_p (center c1) (center c2) > radius c1 + radius c2 \<Longrightarrow> circle_get_intersection c1 c2 = Inr []"
  by (simp add: circle_get_intersection_def Let_def)

lemma slope_fin: "px p1 \<noteq> px p2 \<Longrightarrow> get_slope p1 p2 = Fin ((py p2 - py p1) / (px p2 - px p1))"
  by (simp add: get_slope_def num_div_def)

lemma slope_zoo: "px p1 = px p2 \<Longrightarrow> py p1 \<noteq> py p2 \<Longrightarrow> get_slope p1 p2 = Zoo"
  by (simp add: get_slope_def num_div_def)

lemma intercept_fin: "get_intercept p (Fin m) = Fin (py p - m * px p)"
  by (simp add: get_intercept_def num_sub_def num_mul_def num_add_def)

lemma intercept_zoo: "get_intercept p Zoo = (if px p = 0 then NaN else Zoo)"
  by (simp add: get_intercept_def num_sub_def num_mul_def num_add_def)

lemma point_neq: "p \<noteq> q \<longleftrightarrow> px p \<noteq> px q \<or> py p \<noteq> py q"
  by (cases p; cases q) auto

lemma on_line_nonvertical:
  assumes "px p1 \<noteq> px p2"
  shows "on_line_through p1 p2 q \<longleftrightarrow>
         py q = (py p2 - py p1) / (px p2 - px p1) * px q
                + (py p1 - (py p2 - py p1) / (px p2 - px p1) * px p1)"
proof -
  define d where "d = px p2 - px p1"
  define e where "e = py p2 - py p1"
  have nz: "d \<noteq> 0" using assms by (simp add: d_def)
  have "py q = e / d * px q + (py p1 - e / d * px p1)
        \<longleftrightarrow> d * py q = d * (e / d * px q + (py p1 - e / d * px p1))"
    using nz by simp
  also have "d * (e / d * px q + (py p1 - e / d * px p1)) = e * px q + d * py p1 - e * px p1"
    using nz by (simp add: field_simps)
  also have "d * py q = e * px q + d * py p1 - e * px p1 \<longleftrightarrow> on_line_through p1 p2 q"
    unfolding on_line_through_def d_def e_def by (auto simp: algebra_simps)
  finally show ?thesis unfolding d_def e_def by simp
qed

lemma on_line_vertical:
  assumes "px p1 = px p2" "py p1 \<noteq> py p2"
  shows "on_line_through p1 p2 q \<longleftrightarrow> px q = px p1"
proof -
  have "on_line_through p1 p2 q \<longleftrightarrow> (py p1 - py p2) * (px q - px p1) = 0"
    unfolding on_line_through_def using assms(1) by (simp add: algebra_simps)
  then show ?thesis using assms(2) by simp
qed

lemma lines_values_equal_nonvertical:
  assumes "px p1 \<noteq> px p2" "q1 \<noteq> q2"
  shows "lines_values_equal p1 p2 q1 q2 = Inr (same_geometric_line p1 p2 q1 q2)"
proof (cases "px q1 = px q2")
  case True
  with assms(2) have ny: "py q1 \<noteq> py q2" by (simp add: point_neq)
  have "\<not> same_geometric_line p1 p2 q1 q2"
    unfolding same_geometric_line_def on_line_nonvertical [OF assms(1)] using True ny by auto
  then show ?thesis using assms(1) True ny
    by (simp add: lines_values_equal_def Line_def line_of_def values_equal_def slope_fin slope_zoo)
next
  case False
  define m where "m = (py p2 - py p1) / (px p2 - px p1)"
  define k where "k = py p1 - m * px p1"
  define m' where "m' = (py q2 - py q1) / (px q2 - px q1)"
  have nz: "px q2 - px q1 \<noteq> 0" using False by simp
  have same: "same_geometric_line p1 p2 q1 q2 \<longleftrightarrow> py q1 = m * px q1 + k \<and> py q2 = m * px q2 + k"
    unfolding same_geometric_line_def on_line_nonvertical [OF assms(1)] m_def k_def by simp
  have eq: "lines_values_equal p1 p2 q1 q2 = Inr (m = m' \<and> k = py q1 - m' * px q1)"
    using assms(1) False
    by (simp add: lines_values_equal_def Line_def line_of_def values_equal_def slope_fin intercept_fin m_def k_def m'_def)
  have "(m = m' \<and> k = py q1 - m' * px q1) \<longleftrightarrow> (py q1 = m * px q1 + k \<and> py q2 = m * px q2 + k)"
  proof
    assume h: "m = m' \<and> k = py q1 - m' * px q1"
    then have a: "py q1 = m * px q1 + k" by simp
    have "m * (px q2 - px q1) = py q2 - py q1" using h nz by (simp add: m'_def)
    then have "py q2 = m * px q2 + k" using a by (simp add: algebra_simps)
    with a show "py q1 = m * px q1 + k \<and> py q2 = m * px q2 + k" by simp
  next
    assume h: "py q1 = m * px q1 + k \<and> py q2 = m * px q2 + k"
    then have "py q2 - py q1 = m * (px q2 - px q1)" by (simp add: algebra_simps)
    then have "m' = m" using nz by (simp add: m'_def)
    with h show "m = m' \<and> k = py q1 - m' * px q1" by simp
  qed
  with same eq show ?thesis by simp
qed

lemma lines_values_equal_vertical_same:
  assumes "px p1 = px p2" "p1 \<noteq> p2" "q1 \<noteq> q2" "same_geometric_line p1 p2 q1 q2"
  shows "lines_values_equal p1 p2 q1 q2 = Inr True"
proof -
  from assms(1,2) have ny: "py p1 \<noteq> py p2" by (simp add: point_neq)
  from assms(4) have q: "px q1 = px p1" "px q2 = px p1"
    unfolding same_geometric_line_def on_line_vertical [OF assms(1) ny] by simp_all
  with assms(3) have nq: "py q1 \<noteq> py q2" by (simp add: point_neq)
  show ?thesis using assms(1) ny q nq
    by (simp add: lines_values_equal_def Line_def line_of_def values_equal_def slope_zoo intercept_zoo)
qed

lemma lines_values_equal_vertical_other:
  assumes "px p1 = px p2" "p1 \<noteq> p2" "px q1 \<noteq> px q2"
  shows "lines_values_equal p1 p2 q1 q2 = Inr False \<and> \<not> same_geometric_line p1 p2 q1 q2"
proof -
  from assms(1,2) have ny: "py p1 \<noteq> py p2" by (simp add: point_neq)
  have "\<not> same_geometric_line p1 p2 q1 q2"
    unfolding same_geometric_line_def on_line_vertical [OF assms(1) ny] using assms(3) by auto
  then show ?thesis using assms ny
    by (simp add: lines_values_equal_def Line_def line_of_def values_equal_def slope_zoo slope_fin)
qed

lemma lines_values_equal_vertical_both:
  assumes "px p1 = px p2" "p1 \<noteq> p2" "px q1 = px q2" "q1 \<noteq> q2"
  shows "lines_values_equal p1 p2 q1 q2 = Inr ((px p1 = 0) = (px q1 = 0))"
proof -
  from assms(1,2) have ny: "py p1 \<noteq> py p2" by (simp add: point_neq)
  from assms(3,4) have nq: "py q1 \<noteq> py q2" by (simp add: point_neq)
  show ?thesis using assms(1,3) ny nq
    by (simp add: lines_values_equal_def Line_def line_of_def values_equal_def slope_zoo
        intercept_zoo)
qed

text \<open>
  Slope and intercept of two lines agree in value exactly when the lines are one
  geometric line, or both are vertical and neither is the line \<open>x = 0\<close>.
\<close>

lemma lines_values_equal_char:
  assumes "p1 \<noteq> p2" "q1 \<noteq> q2"
  shows "lines_values_equal p1 p2 q1 q2
         = Inr (same_geometric_line p1 p2 q1 q2 \<or> vertical_off_origin p1 p2 q1 q2)"
proof (cases "px p1 = px p2")
  case False
  then show ?thesis
    using lines_values_equal_nonvertical [OF False assms(2)] by (simp add: vertical_off_origin_def)
next
  case True
  from True assms(1) have ny: "py p1 \<noteq> py p2" by (simp add: point_neq)
  show ?thesis
  proof (cases "px q1 = px q2")
    case False
    then show ?thesis
      using lines_values_equal_vertical_other [OF True assms(1) False]
      by (simp add: vertical_off_origin_def)
  next
    case q: True
    have "same_geometric_line p1 p2 q1 q2 \<longleftrightarrow> px q1 = px p1"
      unfolding same_geometric_line_def on_line_vertical [OF True ny] using q by auto
    then have "(same_geometric_line p1 p2 q1 q2 \<or> vertical_off_origin p1 p2 q1 q2)
        \<longleftrightarrow> ((px p1 = 0) = (px q1 = 0))"
      using True q by (auto simp: vertical_off_origin_def)
    then show ?thesis
      using lines_values_equal_vertical_both [OF True assms(1) q assms(2)] by simp
  qed
qed

lemma lines_equal_values:
  "lines_equal p1 p2 q1 q2 =
     andthen (lines_values_equal p1 p2 q1 q2) (\<lambda>b.
       Inr (if \<not> b then Some False
            else if rational_point p1 \<and> rational_point p2 \<and> rational_point q1 \<and> rational_point q2
            then Some True else None))"
  by (auto simp: lines_equal_def lines_values_equal_def Line_def line_eq_def values_equal_def
      line_of_def)


section \<open>The kernel on concrete configurations\<close>

lemma line_of_fields [simp]:
  "lp1 (line_of p q) = p" "lp2 (line_of p q) = q"
  "lA (line_of p q) = py p - py q" "lB (line_of p q) = px q - px p"
  "lC (line_of p q) = px p * py q - px q * py p"
  "slope (line_of p q) = get_slope p q"
  "intercept (line_of p q) = get_intercept p (get_slope p q)"
  by (simp_all add: line_of_def)

lemma circle_of_fields [simp]:
  "center (circle_of c p) = c" "other_point (circle_of c p) = p"
  "radius (circle_of c p) = dist_p c p"
  by (simp_all add: circle_of_def)

lemma Line_ok: "px p \<noteq> px q \<or> py p \<noteq> py q \<Longrightarrow> Line p q = Inr (line_of p q)"
  by (auto simp: Line_def)

lemma Circle_ok: "px c \<noteq> px p \<or> py c \<noteq> py p \<Longrightarrow> Circle c p = Inr (circle_of c p)"
  by (auto simp: Circle_def isEqual_def)

lemma x_axis_val: "x_axis = Inr (line_of origin unit)"
  by (simp add: x_axis_def Line_ok origin_def unit_def)

lemma dist_p_vertical [simp]: "dist_p (Point c a) (Point c b) = \<bar>a - b\<bar>"
  by (simp add: dist_p_def)

lemma dist_p_nonneg [simp]: "0 \<le> dist_p p q"
  by (simp add: dist_p_def)

lemma dist_p_pos: "px p \<noteq> px q \<or> py p \<noteq> py q \<Longrightarrow> 0 < dist_p p q"
  unfolding dist_p_def by (auto simp: sum_power2_gt_zero_iff)

lemma dist_p_sq: "(dist_p p q)\<^sup>2 = (px p - px q)\<^sup>2 + (py p - py q)\<^sup>2"
  by (simp add: dist_p_def)

text \<open>A circle and a horizontal line.\<close>

lemma iwl_horizontal:
  assumes "lA l = 0" "lB l \<noteq> 0" "\<bar>py (center c) + lC l / lB l\<bar> < radius c"
  shows "intersect_with_line c l =
         Inr [Point (px (center c) + sqrt ((radius c)\<^sup>2 - (- lC l / lB l - py (center c))\<^sup>2)) (- lC l / lB l),
              Point (px (center c) - sqrt ((radius c)\<^sup>2 - (- lC l / lB l - py (center c))\<^sup>2)) (- lC l / lB l)]"
proof -
  have "dist_from_point l (center c) = \<bar>lB l * py (center c) + lC l\<bar> / \<bar>lB l\<bar>"
    using assms(1) by (simp add: dist_from_point_def)
  also have "\<dots> = \<bar>py (center c) + lC l / lB l\<bar>"
    using assms(2) by (simp add: field_simps flip: abs_divide)
  finally have d: "dist_from_point l (center c) = \<bar>py (center c) + lC l / lB l\<bar>" .
  show ?thesis
    unfolding intersect_with_line_def Let_def d using assms by simp
qed

lemma iwl_vertical:
  assumes "lB l = 0" "lA l \<noteq> 0" "\<bar>px (center c) + lC l / lA l\<bar> < radius c"
  shows "intersect_with_line c l =
         Inr [Point (- lC l / lA l) (py (center c) + sqrt ((radius c)\<^sup>2 - (- lC l / lA l - px (center c))\<^sup>2)),
              Point (- lC l / lA l) (py (center c) - sqrt ((radius c)\<^sup>2 - (- lC l / lA l - px (center c))\<^sup>2))]"
proof -
  have "dist_from_point l (center c) = \<bar>lA l * px (center c) + lC l\<bar> / \<bar>lA l\<bar>"
    using assms(1) by (simp add: dist_from_point_def)
  also have "\<dots> = \<bar>px (center c) + lC l / lA l\<bar>"
    using assms(2) by (simp add: field_simps flip: abs_divide)
  finally have d: "dist_from_point l (center c) = \<bar>px (center c) + lC l / lA l\<bar>" .
  show ?thesis
    unfolding intersect_with_line_def Let_def d using assms by simp
qed

text \<open>A circle around a point of the x-axis meets the line through the origin and a point
  of the x-axis in the two points at distance of the radius.\<close>

lemma iwl_on_x_axis:
  assumes "b \<noteq> 0" "0 < radius c" "py (center c) = 0"
  shows "intersect_with_line c (line_of (Point 0 0) (Point b 0)) =
         Inr [Point (px (center c) + radius c) 0, Point (px (center c) - radius c) 0]"
  using assms by (subst iwl_horizontal) simp_all

lemma mirror_point_on_x_axis_val:
  "mirror_point_on_x_axis (Point a 0) origin = Inr (Point (- a) 0)"
proof (cases "a = 0")
  case True
  then show ?thesis by (simp add: mirror_point_on_x_axis_def isEqual_def origin_def)
next
  case False
  then show ?thesis
    by (simp add: mirror_point_on_x_axis_def isEqual_def origin_def Circle_ok Line_ok
        iwl_on_x_axis)
qed

lemma double_point_on_x_axis_val:
  "double_point_on_x_axis origin (Point a 0) = Inr (Point (2 * a) 0)"
proof (cases "a = 0")
  case True
  then show ?thesis by (simp add: double_point_on_x_axis_def isEqual_def origin_def)
next
  case False
  then show ?thesis
    by (simp add: double_point_on_x_axis_def isEqual_def origin_def Circle_ok Line_ok
        iwl_on_x_axis)
qed

text \<open>Integers as CasNums: the point \<open>(v, 0)\<close>.\<close>

lemma neg_val: "neg (CasNum (Point a 0)) = Inr (CasNum (Point (- a) 0))"
  by (simp add: neg_def mirror_point_on_x_axis_val)

lemma mul2_val: "mul2 (CasNum (Point a 0)) = Inr (CasNum (Point (2 * a) 0))"
  by (simp add: mul2_def double_point_on_x_axis_val)

lemma add_val: "add (CasNum (Point a 0)) (CasNum (Point b 0)) = Inr (CasNum (Point (a + b) 0))"
proof -
  have "b \<noteq> 0 \<Longrightarrow> get_circle (Point a 0) \<bar>b\<bar> = Inr (circle_of (Point a 0) (Point (a - \<bar>b\<bar>) 0))"
    by (simp add: get_circle_def Circle_ok)
  then show ?thesis
    by (auto simp: add_def cn_eq_def isEqual_def zero_def origin_def copy_def mul2_val
        ALLOW_CONSTRUCT_CIRCLE_FROM_CENTER_AND_RADIUS_def x_axis_val unit_def cn_gt_def
        iwl_on_x_axis [of 1, simplified])
qed

lemma sub_val: "sub (CasNum (Point a 0)) (CasNum (Point b 0)) = Inr (CasNum (Point (a - b) 0))"
  by (simp add: sub_def cn_isEqual_def isEqual_def copy_def zero_def origin_def neg_val add_val)

lemma cn_abs_val: "cn_abs (CasNum (Point a 0)) = Inr (CasNum (Point \<bar>a\<bar> 0))"
  by (simp add: cn_abs_def cn_lt_def cn_gt_def zero_def origin_def neg_val)

lemma two_val: "two = Inr (CasNum (Point 2 0))"
  using add_val [of 1 1] by (simp add: two_def one_def unit_def)

section \<open>The closed formula for two circles\<close>

lemma cc_Q_eq: "cc_Q c1x c1y c2x c2y = 4 * ((c1x - c2x)\<^sup>2 + (c1y - c2y)\<^sup>2)"
  by (simp add: cc_Q_def power2_eq_square algebra_simps)

lemma cc_U_eq: "cc_U c1x c1y c2x c2y r1 r2 = - 4 * (c1y - c2y) * cc_K c1x c1y c2x c2y r1 r2"
  by (simp add: cc_U_def cc_K_def power2_eq_square algebra_simps)

lemma cc_W_eq:
  "cc_W c1x c1y c2x c2y r1 r2 = (cc_K c1x c1y c2x c2y r1 r2)\<^sup>2 - 4 * r1\<^sup>2 * (c1x - c2x)\<^sup>2"
  by (simp add: cc_W_def cc_K_def power2_eq_square algebra_simps)

lemma cc_radicand_eq:
  "cc_radicand c1x c1y c2x c2y r1 r2 =
     16 * (c1x - c2x)\<^sup>2 * (4 * ((c1x - c2x)\<^sup>2 + (c1y - c2y)\<^sup>2) * r1\<^sup>2 - (cc_K c1x c1y c2x c2y r1 r2)\<^sup>2)"
  unfolding cc_radicand_def cc_Q_eq cc_U_eq cc_W_eq
  by (simp add: power2_eq_square algebra_simps)

lemma cc_sqrt_radicand:
  assumes "0 \<le> S2" "S2 = 4 * ((c1x - c2x)\<^sup>2 + (c1y - c2y)\<^sup>2) * r1\<^sup>2 - (cc_K c1x c1y c2x c2y r1 r2)\<^sup>2"
  shows "sqrt (cc_radicand c1x c1y c2x c2y r1 r2) = 4 * \<bar>c1x - c2x\<bar> * sqrt S2"
  unfolding cc_radicand_eq assms(2) [symmetric]
  by (simp add: real_sqrt_mult)

lemma cc_y1_eq:
  assumes "0 \<le> S2" "S2 = 4 * D2 * r1\<^sup>2 - K\<^sup>2"
    "D2 = (c1x - c2x)\<^sup>2 + (c1y - c2y)\<^sup>2" "K = cc_K c1x c1y c2x c2y r1 r2" "D2 \<noteq> 0"
  shows "cc_y1 c1x c1y c2x c2y r1 r2 = c1y + (- (c1y - c2y) * K + \<bar>c1x - c2x\<bar> * sqrt S2) / (2 * D2)"
proof -
  have r: "sqrt (cc_radicand c1x c1y c2x c2y r1 r2) = 4 * \<bar>c1x - c2x\<bar> * sqrt S2"
    using assms by (intro cc_sqrt_radicand) simp_all
  have q: "2 * cc_Q c1x c1y c2x c2y = 8 * D2" by (simp add: cc_Q_eq assms(3))
  define R where "R = \<bar>c1x - c2x\<bar> * sqrt S2"
  have "cc_y1 c1x c1y c2x c2y r1 r2 = c1y - (4 * (c1y - c2y) * K - 4 * R) / (8 * D2)"
    unfolding cc_y1_def r q assms(4) cc_K_def R_def
    by (simp add: power2_eq_square algebra_simps)
  also have "\<dots> = c1y + (- (c1y - c2y) * K + R) / (2 * D2)"
    using assms(5) by (simp add: field_simps)
  finally show ?thesis by (simp add: R_def)
qed

lemma cc_y2_eq:
  assumes "0 \<le> S2" "S2 = 4 * D2 * r1\<^sup>2 - K\<^sup>2"
    "D2 = (c1x - c2x)\<^sup>2 + (c1y - c2y)\<^sup>2" "K = cc_K c1x c1y c2x c2y r1 r2" "D2 \<noteq> 0"
  shows "cc_y2 c1x c1y c2x c2y r1 r2 = c1y + (- (c1y - c2y) * K - \<bar>c1x - c2x\<bar> * sqrt S2) / (2 * D2)"
proof -
  have r: "sqrt (cc_radicand c1x c1y c2x c2y r1 r2) = 4 * \<bar>c1x - c2x\<bar> * sqrt S2"
    using assms by (intro cc_sqrt_radicand) simp_all
  have q: "2 * cc_Q c1x c1y c2x c2y = 8 * D2" by (simp add: cc_Q_eq assms(3))
  define R where "R = \<bar>c1x - c2x\<bar> * sqrt S2"
  have "cc_y2 c1x c1y c2x c2y r1 r2 = c1y - (4 * (c1y - c2y) * K + 4 * R) / (8 * D2)"
    unfolding cc_y2_def r q assms(4) cc_K_def R_def
    by (simp add: power2_eq_square algebra_simps)
  also have "\<dots> = c1y + (- (c1y - c2y) * K - R) / (2 * D2)"
    using assms(5) by (simp add: field_simps)
  finally show ?thesis by (simp add: R_def)
qed

lemma tol_pos [simp]: "0 < tol"
  by (simp add: tol_def)

lemma select_x_abs:
  assumes "x \<le> c \<or> (tol \<le> 2 * (x - c) \<and> tol \<le> 2 * \<bar>c - c'\<bar>)"
  shows "select_x [c + \<bar>x - c\<bar>, c - \<bar>x - c\<bar>] [c' + \<bar>x - c'\<bar>, c' - \<bar>x - c'\<bar>] = Some x"
proof (cases "x \<le> c")
  case True
  then have "c - \<bar>x - c\<bar> = x" by simp
  moreover have "are_expressions_approx_equal x (c' + \<bar>x - c'\<bar>) \<or> are_expressions_approx_equal x (c' - \<bar>x - c'\<bar>)"
    by (cases "x \<le> c'") (simp_all add: are_expressions_approx_equal_def)
  ultimately show ?thesis by (auto simp: select_x_def)
next
  case False
  with assms have t: "tol \<le> 2 * (x - c)" "tol \<le> 2 * \<bar>c - c'\<bar>" by auto
  from False have f: "c + \<bar>x - c\<bar> = x" "c - \<bar>x - c\<bar> = 2 * c - x" by simp_all
  have m: "are_expressions_approx_equal x (c' + \<bar>x - c'\<bar>) \<or> are_expressions_approx_equal x (c' - \<bar>x - c'\<bar>)"
    by (cases "x \<le> c'") (simp_all add: are_expressions_approx_equal_def)
  have e: "\<bar>2 * c - 2 * c'\<bar> = 2 * \<bar>c - c'\<bar>" by (auto simp: abs_if)
  have n1: "\<not> are_expressions_approx_equal (2 * c - x) (c' + \<bar>x - c'\<bar>)"
  proof (cases "x \<le> c'")
    case True
    then have "c' + \<bar>x - c'\<bar> = 2 * c' - x" by simp
    then show ?thesis using t(2) by (simp add: are_expressions_approx_equal_def e)
  next
    case False
    then have "c' + \<bar>x - c'\<bar> = x" by simp
    then show ?thesis using t(1) \<open>\<not> x \<le> c\<close> by (simp add: are_expressions_approx_equal_def)
  qed
  have n2: "\<not> are_expressions_approx_equal (2 * c - x) (c' - \<bar>x - c'\<bar>)"
  proof (cases "x \<le> c'")
    case True
    then have "c' - \<bar>x - c'\<bar> = x" by simp
    then show ?thesis using t(1) \<open>\<not> x \<le> c\<close> by (simp add: are_expressions_approx_equal_def)
  next
    case False
    then have "c' - \<bar>x - c'\<bar> = 2 * c' - x" by simp
    then show ?thesis using t(2) by (simp add: are_expressions_approx_equal_def e)
  qed
  show ?thesis unfolding f using m n1 n2 by (auto simp: select_x_def)
qed

lemma rsqrt_sq [simp]: "rsqrt (u\<^sup>2) = Inr \<bar>u\<bar>"
  by (simp add: rsqrt_def)

lemma bound_Some [simp]: "bound (Some v) = Inr v"
  by (simp add: bound_def)

lemma cgi_two_points:
  assumes c1: "center c1 = Point c1x c1y" "radius c1 = r1"
    and c2: "center c2 = Point c2x c2y" "radius c2 = r2"
    and d: "dx = c1x - c2x" "dy = c1y - c2y" "D2 = dx\<^sup>2 + dy\<^sup>2"
    and K: "K = D2 + r1\<^sup>2 - r2\<^sup>2"
    and S: "S = sqrt (4 * D2 * r1\<^sup>2 - K\<^sup>2)"
    and nz: "dx \<noteq> 0"
    and real: "K\<^sup>2 \<le> 4 * D2 * r1\<^sup>2"
    and lt: "sqrt D2 < r1 + r2"
    and s: "s = sgn dx"
    and x1: "x1 = c1x + (- dx * K - s * dy * S) / (2 * D2)"
    and y1: "y1 = c1y + (- dy * K + s * dx * S) / (2 * D2)"
    and x2: "x2 = c1x + (- dx * K + s * dy * S) / (2 * D2)"
    and y2: "y2 = c1y + (- dy * K - s * dx * S) / (2 * D2)"
    and t0: "tol \<le> y1 - y2"
    and t1: "x1 \<le> c1x \<or> (tol \<le> 2 * (x1 - c1x) \<and> tol \<le> 2 * \<bar>dx\<bar>)"
    and t2: "x2 \<le> c1x \<or> (tol \<le> 2 * (x2 - c1x) \<and> tol \<le> 2 * \<bar>dx\<bar>)"
  shows "circle_get_intersection c1 c2 = Inr [Point x1 y1, Point x2 y2]"
proof -
  have D2pos: "0 < D2" using nz by (simp add: d(3) sum_power2_gt_zero_iff)
  have ss: "s * s = 1" using nz by (simp add: s sgn_if)
  have sdx: "s * dx = \<bar>dx\<bar>" by (simp add: s abs_sgn mult.commute)
  have S2: "S\<^sup>2 = 4 * D2 * r1\<^sup>2 - K\<^sup>2" using real by (simp add: S)
  have Kc: "K = cc_K c1x c1y c2x c2y r1 r2" by (simp add: K d cc_K_def)
  have dist: "dist_p (Point c1x c1y) (Point c2x c2y) = sqrt D2"
    by (simp add: dist_p_def d)
  have Q: "cc_Q c1x c1y c2x c2y \<noteq> 0" using D2pos by (simp add: cc_Q_eq d)
  have R: "\<not> cc_radicand c1x c1y c2x c2y r1 r2 < 0"
    unfolding cc_radicand_eq Kc [symmetric] using real by (simp add: d not_less)
  have D2eq: "D2 = (c1x - c2x)\<^sup>2 + (c1y - c2y)\<^sup>2" by (simp add: d)
  have D2ne: "D2 \<noteq> 0" using D2pos by simp
  have Snn: "0 \<le> S" by (simp add: S real)
  have Y1: "cc_y1 c1x c1y c2x c2y r1 r2 = y1"
    unfolding cc_y1_eq [OF zero_le_power2 S2 D2eq Kc D2ne] y1 d(1,2) [symmetric]
    using Snn by (simp add: sdx [symmetric])
  have Y2: "cc_y2 c1x c1y c2x c2y r1 r2 = y2"
    unfolding cc_y2_eq [OF zero_le_power2 S2 D2eq Kc D2ne] y2 d(1,2) [symmetric]
    using Snn by (simp add: sdx [symmetric])
  define u1 where "u1 = (- dx * K - s * dy * S) / (2 * D2)"
  define v1 where "v1 = (- dy * K + s * dx * S) / (2 * D2)"
  define u2 where "u2 = (- dx * K + s * dy * S) / (2 * D2)"
  define v2 where "v2 = (- dy * K - s * dx * S) / (2 * D2)"
  have num1: "(- dx * K - s * dy * S)\<^sup>2 + (- dy * K + s * dx * S)\<^sup>2 = (K\<^sup>2 + (s * s) * S\<^sup>2) * D2"
    by (simp add: d(3) power2_eq_square algebra_simps)
  have num2: "(- dx * K + s * dy * S)\<^sup>2 + (- dy * K - s * dx * S)\<^sup>2 = (K\<^sup>2 + (s * s) * S\<^sup>2) * D2"
    by (simp add: d(3) power2_eq_square algebra_simps)
  have on1: "u1\<^sup>2 + v1\<^sup>2 = r1\<^sup>2"
  proof -
    have "u1\<^sup>2 + v1\<^sup>2 = ((- dx * K - s * dy * S)\<^sup>2 + (- dy * K + s * dx * S)\<^sup>2) / (2 * D2)\<^sup>2"
      by (simp add: u1_def v1_def power_divide add_divide_distrib)
    also have "\<dots> = (4 * D2 * r1\<^sup>2 * D2) / (2 * D2)\<^sup>2"
      unfolding num1 ss S2 by simp
    also have "\<dots> = r1\<^sup>2" using D2pos by (simp add: power2_eq_square)
    finally show ?thesis .
  qed
  have on2: "u2\<^sup>2 + v2\<^sup>2 = r1\<^sup>2"
  proof -
    have "u2\<^sup>2 + v2\<^sup>2 = ((- dx * K + s * dy * S)\<^sup>2 + (- dy * K - s * dx * S)\<^sup>2) / (2 * D2)\<^sup>2"
      by (simp add: u2_def v2_def power_divide add_divide_distrib)
    also have "\<dots> = (4 * D2 * r1\<^sup>2 * D2) / (2 * D2)\<^sup>2"
      unfolding num2 ss S2 by simp
    also have "\<dots> = r1\<^sup>2" using D2pos by (simp add: power2_eq_square)
    finally show ?thesis .
  qed
  have hD: "dx * dx + dy * dy = D2" by (simp add: d(3) power2_eq_square)
  have lin1: "dx * u1 + dy * v1 = - K / 2"
  proof -
    have "dx * u1 + dy * v1 = (- (dx * dx + dy * dy) * K) / (2 * D2)"
      by (simp add: u1_def v1_def add_divide_distrib [symmetric] algebra_simps)
    also have "\<dots> = - K / 2" unfolding hD using D2pos by simp
    finally show ?thesis .
  qed
  have lin2: "dx * u2 + dy * v2 = - K / 2"
  proof -
    have "dx * u2 + dy * v2 = (- (dx * dx + dy * dy) * K) / (2 * D2)"
      by (simp add: u2_def v2_def add_divide_distrib [symmetric] algebra_simps)
    also have "\<dots> = - K / 2" unfolding hD using D2pos by simp
    finally show ?thesis .
  qed
  have on1': "(u1 + dx)\<^sup>2 + (v1 + dy)\<^sup>2 = r2\<^sup>2"
  proof -
    have "(u1 + dx)\<^sup>2 + (v1 + dy)\<^sup>2 = (u1\<^sup>2 + v1\<^sup>2) + 2 * (dx * u1 + dy * v1) + D2"
      by (simp add: d(3) power2_eq_square algebra_simps)
    then show ?thesis unfolding on1 lin1 by (simp add: K field_simps)
  qed
  have on2': "(u2 + dx)\<^sup>2 + (v2 + dy)\<^sup>2 = r2\<^sup>2"
  proof -
    have "(u2 + dx)\<^sup>2 + (v2 + dy)\<^sup>2 = (u2\<^sup>2 + v2\<^sup>2) + 2 * (dx * u2 + dy * v2) + D2"
      by (simp add: d(3) power2_eq_square algebra_simps)
    then show ?thesis unfolding on2 lin2 by (simp add: K field_simps)
  qed
  have e1: "x1 = c1x + u1" "y1 = c1y + v1" "x2 = c1x + u2" "y2 = c1y + v2"
    by (simp_all add: x1 y1 x2 y2 u1_def v1_def u2_def v2_def)
  have rad11: "r1\<^sup>2 - (y1 - c1y)\<^sup>2 = (x1 - c1x)\<^sup>2" using on1 by (simp add: e1)
  have rad12: "r2\<^sup>2 - (y1 - c2y)\<^sup>2 = (x1 - c2x)\<^sup>2"
    using on1' by (simp add: e1 d algebra_simps)
  have rad21: "r1\<^sup>2 - (y2 - c1y)\<^sup>2 = (x2 - c1x)\<^sup>2" using on2 by (simp add: e1)
  have rad22: "r2\<^sup>2 - (y2 - c2y)\<^sup>2 = (x2 - c2x)\<^sup>2"
    using on2' by (simp add: e1 d algebra_simps)
  have napprox: "\<not> are_expressions_approx_equal y1 y2"
    using t0 by (simp add: are_expressions_approx_equal_def)
  have sel1: "select_x [c1x + \<bar>x1 - c1x\<bar>, c1x - \<bar>x1 - c1x\<bar>] [c2x + \<bar>x1 - c2x\<bar>, c2x - \<bar>x1 - c2x\<bar>] = Some x1"
    using t1 by (intro select_x_abs) (simp add: d)
  have sel2: "select_x [c1x + \<bar>x2 - c1x\<bar>, c1x - \<bar>x2 - c1x\<bar>] [c2x + \<bar>x2 - c2x\<bar>, c2x - \<bar>x2 - c2x\<bar>] = Some x2"
    using t2 by (intro select_x_abs) (simp add: d)
  show ?thesis
    unfolding circle_get_intersection_def Let_def c1 c2 dist point.sel Y1 Y2
    using lt Q R napprox
    by (simp add: rad11 rad12 rad21 rad22 sel1 sel2)
qed

section \<open>Circles through given points, bisectors and perpendiculars\<close>

lemma cgi_vertical:
  assumes c1: "center c1 = Point cx c1y" "radius c1 = r1"
    and c2: "center c2 = Point cx c2y" "radius c2 = r2"
    and d: "dy = c1y - c2y" "dy \<noteq> 0"
    and K: "K = dy\<^sup>2 + r1\<^sup>2 - r2\<^sup>2"
    and real: "K\<^sup>2 \<le> 4 * dy\<^sup>2 * r1\<^sup>2"
    and lt: "\<bar>dy\<bar> < r1 + r2"
    and y: "y = c1y - K / (2 * dy)"
    and t: "t = sqrt (r1\<^sup>2 - (K / (2 * dy))\<^sup>2)"
  shows "circle_get_intersection c1 c2 = Inr [Point (cx + t) y, Point (cx - t) y]"
proof -
  have D2eq: "dy\<^sup>2 = (cx - cx)\<^sup>2 + (c1y - c2y)\<^sup>2" by (simp add: d)
  have D2ne: "dy\<^sup>2 \<noteq> 0" using d by simp
  have Kc: "K = cc_K cx c1y cx c2y r1 r2" by (simp add: K d cc_K_def)
  have S2: "4 * dy\<^sup>2 * r1\<^sup>2 - K\<^sup>2 = 4 * dy\<^sup>2 * r1\<^sup>2 - K\<^sup>2" ..
  have nn: "0 \<le> 4 * dy\<^sup>2 * r1\<^sup>2 - K\<^sup>2" using real by simp
  have dist: "dist_p (Point cx c1y) (Point cx c2y) = \<bar>dy\<bar>" by (simp add: d)
  have Q: "cc_Q cx c1y cx c2y \<noteq> 0" using d by (simp add: cc_Q_eq)
  have R: "\<not> cc_radicand cx c1y cx c2y r1 r2 < 0" by (simp add: cc_radicand_eq)
  have dK: "dy * K / (2 * dy\<^sup>2) = K / (2 * dy)"
    using d(2) by (simp add: power2_eq_square)
  have Y1: "cc_y1 cx c1y cx c2y r1 r2 = y"
    unfolding cc_y1_eq [OF nn S2 D2eq Kc D2ne] y d(1) [symmetric]
    using dK by (simp add: field_simps)
  have Y2: "cc_y2 cx c1y cx c2y r1 r2 = y"
    unfolding cc_y2_eq [OF nn S2 D2eq Kc D2ne] y d(1) [symmetric]
    using dK by (simp add: field_simps)
  have "(K / (2 * dy))\<^sup>2 = K\<^sup>2 / (4 * dy\<^sup>2)" by (simp add: power_divide power2_eq_square)
  also have "\<dots> \<le> (4 * dy\<^sup>2 * r1\<^sup>2) / (4 * dy\<^sup>2)"
    using real by (intro divide_right_mono) simp_all
  also have "\<dots> = r1\<^sup>2" using d(2) by simp
  finally have le: "(K / (2 * dy))\<^sup>2 \<le> r1\<^sup>2" .
  have rs: "rsqrt (r1\<^sup>2 - (y - c1y)\<^sup>2) = Inr t"
    using le by (simp add: rsqrt_def y t)
  show ?thesis
    unfolding circle_get_intersection_def Let_def c1 c2 dist point.sel Y1 Y2
    using lt Q R by (simp add: rs are_expressions_approx_equal_def)
qed

text \<open>Perpendicular bisector of a segment that is not vertical.\<close>

lemma sqrt3_sq [simp]: "sqrt 3 * sqrt 3 = 3"
  by simp

lemma get_perpendicular_bisector_val:
  assumes P: "lp1 l = Point p1x p1y" and Q: "lp2 l = Point p2x p2y"
    and d: "dx = p1x - p2x" "dy = p1y - p2y" "dx \<noteq> 0"
    and s: "s = sgn dx"
    and x1: "x1 = (p1x + p2x) / 2 - s * dy * sqrt 3 / 2"
    and y1: "y1 = (p1y + p2y) / 2 + s * dx * sqrt 3 / 2"
    and x2: "x2 = (p1x + p2x) / 2 + s * dy * sqrt 3 / 2"
    and y2: "y2 = (p1y + p2y) / 2 - s * dx * sqrt 3 / 2"
    and t0: "tol \<le> sqrt 3 * \<bar>dx\<bar>"
    and t1: "x1 \<le> p1x \<or> (tol \<le> 2 * (x1 - p1x) \<and> tol \<le> 2 * \<bar>dx\<bar>)"
    and t2: "x2 \<le> p1x \<or> (tol \<le> 2 * (x2 - p1x) \<and> tol \<le> 2 * \<bar>dx\<bar>)"
  shows "get_perpendicular_bisector l = Inr (line_of (Point x1 y1) (Point x2 y2))"
proof -
  define D2 where "D2 = dx\<^sup>2 + dy\<^sup>2"
  have D2pos: "0 < D2" using d(3) by (simp add: D2_def sum_power2_gt_zero_iff)
  have ne: "px (Point p1x p1y) \<noteq> px (Point p2x p2y) \<or> py (Point p1x p1y) \<noteq> py (Point p2x p2y)"
    using d by simp
  have ne': "px (Point p2x p2y) \<noteq> px (Point p1x p1y) \<or> py (Point p2x p2y) \<noteq> py (Point p1x p1y)"
    using d by simp
  have r1: "dist_p (Point p1x p1y) (Point p2x p2y) = sqrt D2"
    by (simp add: dist_p_def D2_def d)
  have r2: "dist_p (Point p2x p2y) (Point p1x p1y) = sqrt D2"
    by (simp add: dist_p_def D2_def d power2_commute)
  have sq: "(sqrt D2)\<^sup>2 = D2" using D2pos by simp
  have Keq: "D2 = D2 + (sqrt D2)\<^sup>2 - (sqrt D2)\<^sup>2" by simp
  have "4 * D2 * (sqrt D2)\<^sup>2 - D2\<^sup>2 = 3 * D2\<^sup>2"
    unfolding sq by (simp add: power2_eq_square)
  then have "sqrt (4 * D2 * (sqrt D2)\<^sup>2 - D2\<^sup>2) = sqrt (3 * D2\<^sup>2)"
    by (rule arg_cong)
  also have "\<dots> = sqrt 3 * D2" using D2pos by (simp add: real_sqrt_mult)
  finally have Seq: "sqrt 3 * D2 = sqrt (4 * D2 * (sqrt D2)\<^sup>2 - D2\<^sup>2)" by simp
  have real: "D2\<^sup>2 \<le> 4 * D2 * (sqrt D2)\<^sup>2" unfolding sq by (simp add: power2_eq_square)
  have lt: "sqrt D2 < sqrt D2 + sqrt D2" using D2pos by simp
  have sdx: "s * dx = \<bar>dx\<bar>" by (simp add: s abs_sgn mult.commute)
  have x1': "x1 = p1x + (- dx * D2 - s * dy * (sqrt 3 * D2)) / (2 * D2)"
    using D2pos by (simp add: x1 d field_simps)
  have y1': "y1 = p1y + (- dy * D2 + s * dx * (sqrt 3 * D2)) / (2 * D2)"
    using D2pos by (simp add: y1 d field_simps)
  have x2': "x2 = p1x + (- dx * D2 + s * dy * (sqrt 3 * D2)) / (2 * D2)"
    using D2pos by (simp add: x2 d field_simps)
  have y2': "y2 = p1y + (- dy * D2 - s * dx * (sqrt 3 * D2)) / (2 * D2)"
    using D2pos by (simp add: y2 d field_simps)
  have yy: "y1 - y2 = sqrt 3 * \<bar>dx\<bar>"
    by (simp add: y1 y2 sdx [symmetric] field_simps)
  have t0': "tol \<le> y1 - y2" using t0 by (simp add: yy)
  have ca: "center (circle_of (Point p1x p1y) (Point p2x p2y)) = Point p1x p1y"
    and cb: "radius (circle_of (Point p1x p1y) (Point p2x p2y)) = sqrt D2"
    and cc: "center (circle_of (Point p2x p2y) (Point p1x p1y)) = Point p2x p2y"
    and cd: "radius (circle_of (Point p2x p2y) (Point p1x p1y)) = sqrt D2"
    by (simp_all add: r1 r2)
  note cgi = cgi_two_points [OF ca cb cc cd d(1) d(2) D2_def Keq Seq d(3) real lt s x1' y1' x2' y2' t0' t1 t2]
  have ne12: "y1 \<noteq> y2" using yy d(3) by auto
  show ?thesis
    unfolding get_perpendicular_bisector_def P Q
    by (simp add: Circle_ok [OF ne] Circle_ok [OF ne'] circle_intersect_def cgi Line_ok ne12)
qed

lemma iwl_vertical_line_of:
  assumes "u \<noteq> v" "center c = Point cx cy" "\<bar>cx - x0\<bar> < radius c"
  shows "intersect_with_line c (line_of (Point x0 u) (Point x0 v)) =
         Inr [Point x0 (cy + sqrt ((radius c)\<^sup>2 - (x0 - cx)\<^sup>2)),
              Point x0 (cy - sqrt ((radius c)\<^sup>2 - (x0 - cx)\<^sup>2))]"
proof -
  define l where "l = line_of (Point x0 u) (Point x0 v)"
  have "lC l = - x0 * lA l" by (simp add: l_def algebra_simps)
  moreover have A: "lA l \<noteq> 0" using assms(1) by (simp add: l_def)
  ultimately have q: "- lC l / lA l = x0" and q': "lC l / lA l = - x0" by simp_all
  have B: "lB l = 0" by (simp add: l_def)
  have pre: "\<bar>px (center c) + lC l / lA l\<bar> < radius c"
    using assms(2,3) by (simp add: q')
  show ?thesis
    using iwl_vertical [OF B A pre, unfolded q] by (simp add: assms(2) l_def)
qed

lemma iwl_horizontal_line_of:
  assumes "u \<noteq> v" "center c = Point cx cy" "\<bar>cy - y0\<bar> < radius c"
  shows "intersect_with_line c (line_of (Point u y0) (Point v y0)) =
         Inr [Point (cx + sqrt ((radius c)\<^sup>2 - (y0 - cy)\<^sup>2)) y0,
              Point (cx - sqrt ((radius c)\<^sup>2 - (y0 - cy)\<^sup>2)) y0]"
proof -
  define l where "l = line_of (Point u y0) (Point v y0)"
  have "lC l = - y0 * lB l" by (simp add: l_def algebra_simps)
  moreover have B: "lB l \<noteq> 0" using assms(1) by (simp add: l_def)
  ultimately have q: "- lC l / lB l = y0" and q': "lC l / lB l = - y0" by simp_all
  have A: "lA l = 0" by (simp add: l_def)
  have pre: "\<bar>py (center c) + lC l / lB l\<bar> < radius c"
    using assms(2,3) by (simp add: q')
  show ?thesis
    using iwl_horizontal [OF A B pre, unfolded q] by (simp add: assms(2) l_def)
qed

lemma bisector_horizontal:
  assumes P: "lp1 l = Point a h" and Q: "lp2 l = Point b h" and t: "tol \<le> \<bar>a - b\<bar>"
  shows "get_perpendicular_bisector l =
         Inr (line_of (Point ((a + b) / 2) (h + \<bar>a - b\<bar> * sqrt 3 / 2))
                      (Point ((a + b) / 2) (h - \<bar>a - b\<bar> * sqrt 3 / 2)))"
proof -
  have "0 < \<bar>a - b\<bar>" using less_le_trans [OF tol_pos t] .
  then have nz: "a - b \<noteq> 0" by simp
  have sdx: "sgn (a - b) * (a - b) = \<bar>a - b\<bar>" by (simp add: abs_sgn mult.commute)
  have s3: "1 \<le> sqrt 3" by simp
  have t0: "tol \<le> sqrt 3 * \<bar>a - b\<bar>"
  proof -
    have "tol \<le> 1 * \<bar>a - b\<bar>" using t by simp
    also have "\<dots> \<le> sqrt 3 * \<bar>a - b\<bar>" using s3 by (intro mult_right_mono) simp_all
    finally show ?thesis .
  qed
  show ?thesis
  proof (rule get_perpendicular_bisector_val [OF P Q refl refl nz refl _ _ _ _ t0])
    show "(a + b) / 2 = (a + b) / 2 - sgn (a - b) * (h - h) * sqrt 3 / 2" by simp
    show "h + \<bar>a - b\<bar> * sqrt 3 / 2 = (h + h) / 2 + sgn (a - b) * (a - b) * sqrt 3 / 2"
      unfolding sdx by simp
    show "(a + b) / 2 = (a + b) / 2 + sgn (a - b) * (h - h) * sqrt 3 / 2" by simp
    show "h - \<bar>a - b\<bar> * sqrt 3 / 2 = (h + h) / 2 - sgn (a - b) * (a - b) * sqrt 3 / 2"
      unfolding sdx by simp
    show "(a + b) / 2 \<le> a \<or> tol \<le> 2 * ((a + b) / 2 - a) \<and> tol \<le> 2 * \<bar>a - b\<bar>"
      using t by (cases "b \<le> a") simp_all
    then show "(a + b) / 2 \<le> a \<or> tol \<le> 2 * ((a + b) / 2 - a) \<and> tol \<le> 2 * \<bar>a - b\<bar>" .
  qed
qed

text \<open>The perpendicular to the x-axis through one of its points.\<close>

lemma perpendicular_on_x_axis:
  assumes r: "r = (if q = 0 then 1 else \<bar>q\<bar>)" and t: "tol \<le> r"
  shows "get_perpendicular_to_line_through_point (Point q 0) (line_of origin unit) =
         Inr (line_of (Point q (r * sqrt 3)) (Point q 0))"
proof -
  have rpos: "0 < r" using less_le_trans [OF tol_pos t] .
  have d0: "\<not> dist_from_point (line_of origin unit) (Point q 0) > 0"
    by (simp add: dist_from_point_def origin_def unit_def)
  have c: "(if isEqual (Point q 0) (lp1 (line_of origin unit))
            then Circle (Point q 0) (lp2 (line_of origin unit))
            else Circle (Point q 0) (lp1 (line_of origin unit)))
           = Inr (circle_of (Point q 0) (Point (if q = 0 then 1 else 0) 0))"
    by (simp add: isEqual_def origin_def unit_def Circle_ok)
  define c0 where "c0 = circle_of (Point q 0) (Point (if q = 0 then 1 else 0) 0)"
  have rad: "radius c0 = r" and cen: "center c0 = Point q 0"
    by (simp_all add: c0_def r)
  have i0: "intersect_with_line c0 (line_of origin unit) = Inr [Point (q + r) 0, Point (q - r) 0]"
    using iwl_on_x_axis [of 1 c0] rpos by (simp add: rad cen origin_def unit_def)
  have tr: "tol \<le> \<bar>q - (q + r)\<bar>" "tol \<le> \<bar>q - (q - r)\<bar>" using t rpos by simp_all
  have b1: "get_perpendicular_bisector (line_of (Point q 0) (Point (q + r) 0)) =
            Inr (line_of (Point (q + r / 2) (r * sqrt 3 / 2)) (Point (q + r / 2) (- (r * sqrt 3 / 2))))"
    using bisector_horizontal [of "line_of (Point q 0) (Point (q + r) 0)" q 0 "q + r"] tr rpos
    by (simp add: field_simps)
  have b2: "get_perpendicular_bisector (line_of (Point q 0) (Point (q - r) 0)) =
            Inr (line_of (Point (q - r / 2) (r * sqrt 3 / 2)) (Point (q - r / 2) (- (r * sqrt 3 / 2))))"
    using bisector_horizontal [of "line_of (Point q 0) (Point (q - r) 0)" q 0 "q - r"] tr rpos
    by (simp add: field_simps)
  have u: "r * sqrt 3 / 2 \<noteq> - (r * sqrt 3 / 2)" using rpos by simp
  have h: "sqrt (r\<^sup>2 - (r / 2)\<^sup>2) = r * sqrt 3 / 2"
  proof -
    have "r\<^sup>2 - (r / 2)\<^sup>2 = (r * sqrt 3 / 2)\<^sup>2"
      by (simp add: power2_eq_square field_simps)
    then show ?thesis using rpos by (simp del: power_mult_distrib power_divide)
  qed
  have i1: "intersect_with_line c0 (line_of (Point (q + r / 2) (r * sqrt 3 / 2)) (Point (q + r / 2) (- (r * sqrt 3 / 2))))
            = Inr [Point (q + r / 2) (r * sqrt 3 / 2), Point (q + r / 2) (- (r * sqrt 3 / 2))]"
    using iwl_vertical_line_of [OF u cen, of "q + r / 2"] rpos by (simp add: rad h)
  have i2: "intersect_with_line c0 (line_of (Point (q - r / 2) (r * sqrt 3 / 2)) (Point (q - r / 2) (- (r * sqrt 3 / 2))))
            = Inr [Point (q - r / 2) (r * sqrt 3 / 2), Point (q - r / 2) (- (r * sqrt 3 / 2))]"
    using iwl_vertical_line_of [OF u cen, of "q - r / 2"] rpos by (simp add: rad h)
  have dd: "dist_p (Point (q + r / 2) (r * sqrt 3 / 2)) (Point (q - r / 2) (r * sqrt 3 / 2))
            < dist_p (Point (q + r / 2) (r * sqrt 3 / 2)) (Point (q - r / 2) (- (r * sqrt 3 / 2)))"
  proof -
    have "(q + r / 2 - (q - r / 2))\<^sup>2 + (r * sqrt 3 / 2 - - (r * sqrt 3 / 2))\<^sup>2 = (2 * r)\<^sup>2"
      by (simp add: power2_eq_square field_simps)
    then have "dist_p (Point (q + r / 2) (r * sqrt 3 / 2)) (Point (q - r / 2) (- (r * sqrt 3 / 2))) = 2 * r"
      unfolding dist_p_def point.sel using rpos by (intro real_sqrt_unique) simp_all
    then show ?thesis using rpos by simp
  qed
  have b3: "get_perpendicular_bisector (line_of (Point (q + r / 2) (r * sqrt 3 / 2)) (Point (q - r / 2) (r * sqrt 3 / 2)))
            = Inr (line_of (Point q (r * sqrt 3)) (Point q 0))"
    using bisector_horizontal [of "line_of (Point (q + r / 2) (r * sqrt 3 / 2)) (Point (q - r / 2) (r * sqrt 3 / 2))"
        "q + r / 2" "r * sqrt 3 / 2" "q - r / 2"] t rpos
    by simp
  show ?thesis
    unfolding get_perpendicular_to_line_through_point_def if_not_P [OF d0] c c0_def [symmetric]
    using rpos dd by (simp add: i0 Line_ok b1 b2 i1 i2 b3)
qed

lemma y_axis_val: "y_axis = Inr (line_of (Point 0 (sqrt 3)) (Point 0 0))"
  using perpendicular_on_x_axis [of 1 0]
  by (simp add: y_axis_def get_y_axis_def Line_ok origin_def unit_def tol_def)

text \<open>
  Two circles with centres on different abscissae that pass through two given points
  of different height: the formula returns these two points, the upper first.
\<close>

lemma circles_meet_lt:
  fixes D r1 r2 :: real
  assumes "0 < D" "0 \<le> r1" "0 \<le> r2" "(D\<^sup>2 + r1\<^sup>2 - r2\<^sup>2)\<^sup>2 < 4 * D\<^sup>2 * r1\<^sup>2"
  shows "D < r1 + r2"
proof (rule ccontr)
  assume "\<not> D < r1 + r2"
  then have ge: "r2 \<le> D - r1" by simp
  have a: "r2\<^sup>2 \<le> (D - r1)\<^sup>2" using ge assms(3) by (intro power_mono) simp_all
  have b: "r2\<^sup>2 \<le> (D + r1)\<^sup>2" using ge assms by (intro power_mono) simp_all
  have "4 * D\<^sup>2 * r1\<^sup>2 - (D\<^sup>2 + r1\<^sup>2 - r2\<^sup>2)\<^sup>2 = (r2\<^sup>2 - (D - r1)\<^sup>2) * ((D + r1)\<^sup>2 - r2\<^sup>2)"
    by (simp add: power2_eq_square algebra_simps)
  also have "\<dots> \<le> 0" using a b by (intro mult_nonpos_nonneg) simp_all
  finally show False using assms(4) by simp
qed

lemma cgi_geometric:
  assumes c1: "center c1 = Point c1x c1y" "radius c1 = r1" "0 \<le> r1"
    and c2: "center c2 = Point c2x c2y" "radius c2 = r2" "0 \<le> r2"
    and nz: "c1x \<noteq> c2x"
    and on11: "(X1 - c1x)\<^sup>2 + (Y1 - c1y)\<^sup>2 = r1\<^sup>2"
    and on12: "(X1 - c2x)\<^sup>2 + (Y1 - c2y)\<^sup>2 = r2\<^sup>2"
    and on21: "(X2 - c1x)\<^sup>2 + (Y2 - c1y)\<^sup>2 = r1\<^sup>2"
    and on22: "(X2 - c2x)\<^sup>2 + (Y2 - c2y)\<^sup>2 = r2\<^sup>2"
    and t0: "tol \<le> Y1 - Y2"
    and t1: "X1 \<le> c1x \<or> (tol \<le> 2 * (X1 - c1x) \<and> tol \<le> 2 * \<bar>c1x - c2x\<bar>)"
    and t2: "X2 \<le> c1x \<or> (tol \<le> 2 * (X2 - c1x) \<and> tol \<le> 2 * \<bar>c1x - c2x\<bar>)"
  shows "circle_get_intersection c1 c2 = Inr [Point X1 Y1, Point X2 Y2]"
proof -
  define dx where "dx = c1x - c2x"
  define dy where "dy = c1y - c2y"
  define D2 where "D2 = dx\<^sup>2 + dy\<^sup>2"
  define K where "K = D2 + r1\<^sup>2 - r2\<^sup>2"
  define s where "s = sgn dx"
  define u1 where "u1 = X1 - c1x"
  define v1 where "v1 = Y1 - c1y"
  define u2 where "u2 = X2 - c1x"
  define v2 where "v2 = Y2 - c1y"
  define T1 where "T1 = dy * u1 - dx * v1"
  define T2 where "T2 = dy * u2 - dx * v2"
  have dxnz: "dx \<noteq> 0" using nz by (simp add: dx_def)
  have D2pos: "0 < D2" using dxnz by (simp add: D2_def sum_power2_gt_zero_iff)
  have e1: "u1\<^sup>2 + v1\<^sup>2 = r1\<^sup>2" using on11 by (simp add: u1_def v1_def)
  have e2: "u2\<^sup>2 + v2\<^sup>2 = r1\<^sup>2" using on21 by (simp add: u2_def v2_def)
  have f1: "(u1 + dx)\<^sup>2 + (v1 + dy)\<^sup>2 = r2\<^sup>2"
    using on12 by (simp add: u1_def v1_def dx_def dy_def algebra_simps)
  have f2: "(u2 + dx)\<^sup>2 + (v2 + dy)\<^sup>2 = r2\<^sup>2"
    using on22 by (simp add: u2_def v2_def dx_def dy_def algebra_simps)
  have lin1: "2 * (dx * u1 + dy * v1) = - K"
  proof -
    have "(u1 + dx)\<^sup>2 + (v1 + dy)\<^sup>2 = (u1\<^sup>2 + v1\<^sup>2) + 2 * (dx * u1 + dy * v1) + D2"
      by (simp add: D2_def power2_eq_square algebra_simps)
    then show ?thesis unfolding e1 f1 by (simp add: K_def)
  qed
  have lin2: "2 * (dx * u2 + dy * v2) = - K"
  proof -
    have "(u2 + dx)\<^sup>2 + (v2 + dy)\<^sup>2 = (u2\<^sup>2 + v2\<^sup>2) + 2 * (dx * u2 + dy * v2) + D2"
      by (simp add: D2_def power2_eq_square algebra_simps)
    then show ?thesis unfolding e2 f2 by (simp add: K_def)
  qed
  have lag1: "4 * D2 * r1\<^sup>2 = K\<^sup>2 + 4 * T1\<^sup>2"
  proof -
    have "D2 * (u1\<^sup>2 + v1\<^sup>2) = (dx * u1 + dy * v1)\<^sup>2 + T1\<^sup>2"
      by (simp add: D2_def T1_def power2_eq_square algebra_simps)
    then have "4 * D2 * r1\<^sup>2 = (2 * (dx * u1 + dy * v1))\<^sup>2 + 4 * T1\<^sup>2"
      unfolding e1 by (simp add: power2_eq_square algebra_simps)
    then show ?thesis unfolding lin1 by simp
  qed
  have lag2: "4 * D2 * r1\<^sup>2 = K\<^sup>2 + 4 * T2\<^sup>2"
  proof -
    have "D2 * (u2\<^sup>2 + v2\<^sup>2) = (dx * u2 + dy * v2)\<^sup>2 + T2\<^sup>2"
      by (simp add: D2_def T2_def power2_eq_square algebra_simps)
    then have "4 * D2 * r1\<^sup>2 = (2 * (dx * u2 + dy * v2))\<^sup>2 + 4 * T2\<^sup>2"
      unfolding e2 by (simp add: power2_eq_square algebra_simps)
    then show ?thesis unfolding lin2 by simp
  qed
  have du1: "2 * D2 * u1 = - dx * K + 2 * dy * T1"
  proof -
    have "2 * D2 * u1 = dx * (2 * (dx * u1 + dy * v1)) + 2 * dy * T1"
      by (simp add: D2_def T1_def power2_eq_square algebra_simps)
    then show ?thesis unfolding lin1 by simp
  qed
  have dv1: "2 * D2 * v1 = - dy * K - 2 * dx * T1"
  proof -
    have "2 * D2 * v1 = dy * (2 * (dx * u1 + dy * v1)) - 2 * dx * T1"
      by (simp add: D2_def T1_def power2_eq_square algebra_simps)
    then show ?thesis unfolding lin1 by simp
  qed
  have du2: "2 * D2 * u2 = - dx * K + 2 * dy * T2"
  proof -
    have "2 * D2 * u2 = dx * (2 * (dx * u2 + dy * v2)) + 2 * dy * T2"
      by (simp add: D2_def T2_def power2_eq_square algebra_simps)
    then show ?thesis unfolding lin2 by simp
  qed
  have dv2: "2 * D2 * v2 = - dy * K - 2 * dx * T2"
  proof -
    have "2 * D2 * v2 = dy * (2 * (dx * u2 + dy * v2)) - 2 * dx * T2"
      by (simp add: D2_def T2_def power2_eq_square algebra_simps)
    then show ?thesis unfolding lin2 by simp
  qed
  have vpos: "0 < v1 - v2" using less_le_trans [OF tol_pos t0] by (simp add: v1_def v2_def)
  have "2 * D2 * (v1 - v2) = 2 * dx * (T2 - T1)"
    using dv1 dv2 by (simp add: algebra_simps)
  moreover have "0 < 2 * D2 * (v1 - v2)" using D2pos vpos by simp
  ultimately have dT: "0 < dx * (T2 - T1)" by simp
  then have Tne: "T1 \<noteq> T2" by auto
  have "T1\<^sup>2 = T2\<^sup>2" using lag1 lag2 by simp
  then have "T1 = T2 \<or> T1 = - T2" by (simp add: power2_eq_iff)
  with Tne have T12: "T2 = - T1" by auto
  with dT have dT1: "dx * T1 < 0" by (simp add: mult.commute)
  then have T1ne: "T1 \<noteq> 0" by auto
  define S where "S = sqrt (4 * D2 * r1\<^sup>2 - K\<^sup>2)"
  have S2: "4 * D2 * r1\<^sup>2 - K\<^sup>2 = (2 * T1)\<^sup>2" using lag1 by simp
  have Sabs: "S = 2 * \<bar>T1\<bar>" unfolding S_def S2 real_sqrt_abs by simp
  have sT: "2 * T1 = - s * S"
  proof (cases "0 < dx")
    case True
    with dT1 have "T1 < 0" by (simp add: mult_less_0_iff)
    then show ?thesis using True by (simp add: Sabs s_def)
  next
    case False
    with dxnz have neg: "dx < 0" by simp
    with dT1 have "0 < T1" by (simp add: mult_less_0_iff)
    then show ?thesis using neg by (simp add: Sabs s_def)
  qed
  have sT2: "2 * T2 = s * S" using sT T12 by simp
  have real: "K\<^sup>2 \<le> 4 * D2 * r1\<^sup>2" using lag1 by simp
  have strict: "K\<^sup>2 < 4 * D2 * r1\<^sup>2" using lag1 T1ne by simp
  have lt: "sqrt D2 < r1 + r2"
  proof (rule circles_meet_lt)
    show "0 < sqrt D2" using D2pos by simp
    show "((sqrt D2)\<^sup>2 + r1\<^sup>2 - r2\<^sup>2)\<^sup>2 < 4 * (sqrt D2)\<^sup>2 * r1\<^sup>2"
      using strict D2pos by (simp add: K_def)
  qed (use c1 c2 in simp_all)
  have x1: "X1 = c1x + (- dx * K - s * dy * S) / (2 * D2)"
  proof -
    have "2 * D2 * u1 = - dx * K + dy * (2 * T1)" using du1 by simp
    then have "2 * D2 * u1 = - dx * K - s * dy * S" unfolding sT by (simp add: algebra_simps)
    then have "u1 = (- dx * K - s * dy * S) / (2 * D2)" using D2pos by (simp add: field_simps)
    then show ?thesis by (simp add: u1_def)
  qed
  have y1: "Y1 = c1y + (- dy * K + s * dx * S) / (2 * D2)"
  proof -
    have "2 * D2 * v1 = - dy * K - dx * (2 * T1)" using dv1 by simp
    then have "2 * D2 * v1 = - dy * K + s * dx * S" unfolding sT by (simp add: algebra_simps)
    then have "v1 = (- dy * K + s * dx * S) / (2 * D2)" using D2pos by (simp add: field_simps)
    then show ?thesis by (simp add: v1_def)
  qed
  have x2: "X2 = c1x + (- dx * K + s * dy * S) / (2 * D2)"
  proof -
    have "2 * D2 * u2 = - dx * K + dy * (2 * T2)" using du2 by simp
    then have "2 * D2 * u2 = - dx * K + s * dy * S" unfolding sT2 by (simp add: algebra_simps)
    then have "u2 = (- dx * K + s * dy * S) / (2 * D2)" using D2pos by (simp add: field_simps)
    then show ?thesis by (simp add: u2_def)
  qed
  have y2: "Y2 = c1y + (- dy * K - s * dx * S) / (2 * D2)"
  proof -
    have "2 * D2 * v2 = - dy * K - dx * (2 * T2)" using dv2 by simp
    then have "2 * D2 * v2 = - dy * K - s * dx * S" unfolding sT2 by (simp add: algebra_simps)
    then have "v2 = (- dy * K - s * dx * S) / (2 * D2)" using D2pos by (simp add: field_simps)
    then show ?thesis by (simp add: v2_def)
  qed
  show ?thesis
    by (rule cgi_two_points [OF c1(1,2) c2(1,2) dx_def dy_def D2_def K_def S_def dxnz real lt s_def
          x1 y1 x2 y2 t0 t1 [folded dx_def] t2 [folded dx_def]])
qed

text \<open>A circle and a line that is neither horizontal nor vertical.\<close>

lemma line_of_slope_form:
  assumes "px P \<noteq> px Q" and m: "m = (py Q - py P) / (px Q - px P)" and k: "k = py P - m * px P"
  shows "slope (line_of P Q) = Fin m" "intercept (line_of P Q) = Fin k"
    "lA (line_of P Q) = - m * lB (line_of P Q)" "lC (line_of P Q) = - k * lB (line_of P Q)"
    "lB (line_of P Q) \<noteq> 0"
proof -
  have nz: "px Q - px P \<noteq> 0" using assms(1) by simp
  show "slope (line_of P Q) = Fin m" using assms(1) by (simp add: slope_fin m)
  then show "intercept (line_of P Q) = Fin k" by (simp add: intercept_fin k)
  have mB: "m * (px Q - px P) = py Q - py P" using nz by (simp add: m)
  show "lA (line_of P Q) = - m * lB (line_of P Q)" using mB by simp
  have "k * (px Q - px P) = py P * (px Q - px P) - (m * (px Q - px P)) * px P"
    by (simp add: k algebra_simps)
  then show "lC (line_of P Q) = - k * lB (line_of P Q)"
    unfolding mB by (simp add: algebra_simps)
  show "lB (line_of P Q) \<noteq> 0" using nz by simp
qed

lemma line_at_slope_form:
  assumes "slope l = Fin m" "intercept l = Fin k"
  shows "line_at l v = Inr (Point v (m * v + k))"
  by (simp add: line_at_def assms num_mul_def num_add_def fin_def)

lemma dist_from_point_slope_form:
  assumes "lA l = - m * lB l" "lC l = - k * lB l" "lB l \<noteq> 0"
  shows "dist_from_point l (Point cx cy) = \<bar>m * cx - cy + k\<bar> / sqrt (m\<^sup>2 + 1)"
proof -
  have "lA l * cx + lB l * cy + lC l = - lB l * (m * cx - cy + k)"
    by (simp add: assms algebra_simps)
  then have n: "\<bar>lA l * cx + lB l * cy + lC l\<bar> = \<bar>lB l\<bar> * \<bar>m * cx - cy + k\<bar>"
    by (simp add: abs_mult)
  have "(lA l)\<^sup>2 + (lB l)\<^sup>2 = (lB l)\<^sup>2 * (m\<^sup>2 + 1)"
    by (simp add: assms(1) power2_eq_square algebra_simps)
  then have d: "sqrt ((lA l)\<^sup>2 + (lB l)\<^sup>2) = \<bar>lB l\<bar> * sqrt (m\<^sup>2 + 1)"
    by (simp add: real_sqrt_mult)
  show ?thesis
    unfolding dist_from_point_def point.sel n d using assms(3) by simp
qed

lemma iwl_radicand_eq:
  "iwl_radicand cx cy r m k = (m\<^sup>2 + 1) * r\<^sup>2 - (m * cx - cy + k)\<^sup>2"
  by (simp add: iwl_radicand_def power2_eq_square algebra_simps)

lemma dist_lt_radius_iff:
  assumes "0 < r"
  shows "\<bar>e\<bar> / sqrt (m\<^sup>2 + 1) < r \<longleftrightarrow> 0 < (m\<^sup>2 + 1) * r\<^sup>2 - e\<^sup>2"
proof -
  have pos: "0 < sqrt (m\<^sup>2 + 1)" by (simp add: add_nonneg_pos)
  have "\<bar>e\<bar> / sqrt (m\<^sup>2 + 1) < r \<longleftrightarrow> \<bar>e\<bar> < r * sqrt (m\<^sup>2 + 1)"
    using pos by (simp add: field_simps)
  also have "\<dots> \<longleftrightarrow> e\<^sup>2 < (r * sqrt (m\<^sup>2 + 1))\<^sup>2"
  proof -
    have "0 < r * sqrt (m\<^sup>2 + 1)" using assms pos by simp
    then have "\<bar>r * sqrt (m\<^sup>2 + 1)\<bar> = r * sqrt (m\<^sup>2 + 1)" by (rule abs_of_pos)
    then have "\<bar>e\<bar> < r * sqrt (m\<^sup>2 + 1) \<longleftrightarrow> \<not> \<bar>r * sqrt (m\<^sup>2 + 1)\<bar> \<le> \<bar>e\<bar>"
      by linarith
    then show ?thesis unfolding abs_le_square_iff by (simp add: not_le)
  qed
  also have "\<dots> \<longleftrightarrow> 0 < (m\<^sup>2 + 1) * r\<^sup>2 - e\<^sup>2"
    by (simp add: power_mult_distrib add_nonneg_pos algebra_simps)
  finally show ?thesis .
qed

lemma iwl_slope:
  assumes P: "px P \<noteq> px Q" "py P \<noteq> py Q"
    and m: "m = (py Q - py P) / (px Q - px P)" and k: "k = py P - m * px P"
    and c: "center c = Point cx cy" "radius c = r" "0 < r"
    and w: "iwl_radicand cx cy r m k = w\<^sup>2" "0 < w"
    and x1: "x1 = (- w + cx + cy * m - k * m) / (m\<^sup>2 + 1)"
    and x2: "x2 = (w + cx + cy * m - k * m) / (m\<^sup>2 + 1)"
  shows "intersect_with_line c (line_of P Q) = Inr [Point x1 (m * x1 + k), Point x2 (m * x2 + k)]"
proof -
  note sf = line_of_slope_form [OF P(1) m k]
  have d: "dist_from_point (line_of P Q) (Point cx cy) = \<bar>m * cx - cy + k\<bar> / sqrt (m\<^sup>2 + 1)"
    by (rule dist_from_point_slope_form [OF sf(3,4,5)])
  have "0 < w\<^sup>2" using w(2) by simp
  then have lt: "dist_from_point (line_of P Q) (Point cx cy) < r"
    unfolding d dist_lt_radius_iff [OF c(3)] iwl_radicand_eq [symmetric] w(1) .
  have A: "lA (line_of P Q) \<noteq> 0" using P(2) by simp
  have sw: "\<bar>w\<bar> = w" using w(2) by simp
  show ?thesis
    unfolding intersect_with_line_def Let_def c point.sel
    using lt A sf(5)
    by (simp add: sf(1,2) fin_def w(1) sw line_at_slope_form [OF sf(1,2)] x1 x2 del: line_of_fields)
qed

lemma iwl_slope_tangent:
  assumes P: "px P \<noteq> px Q" "py P \<noteq> py Q"
    and m: "m = (py Q - py P) / (px Q - px P)" and k: "k = py P - m * px P"
    and c: "center c = Point cx cy" "radius c = r" "0 < r"
    and w: "iwl_radicand cx cy r m k = 0"
  shows "\<exists>q. intersect_with_line c (line_of P Q) = Inr [q]"
proof -
  note sf = line_of_slope_form [OF P(1) m k]
  have d: "dist_from_point (line_of P Q) (Point cx cy) = \<bar>m * cx - cy + k\<bar> / sqrt (m\<^sup>2 + 1)"
    by (rule dist_from_point_slope_form [OF sf(3,4,5)])
  have nlt: "\<not> dist_from_point (line_of P Q) (Point cx cy) < r"
    unfolding d dist_lt_radius_iff [OF c(3)] iwl_radicand_eq [symmetric] w by simp
  have pos: "0 < sqrt (m\<^sup>2 + 1)" by (simp add: add_nonneg_pos)
  have "(m * cx - cy + k)\<^sup>2 = (r * sqrt (m\<^sup>2 + 1))\<^sup>2"
    using w by (simp add: iwl_radicand_eq power_mult_distrib add_nonneg_pos algebra_simps)
  then have "\<bar>m * cx - cy + k\<bar> = \<bar>r * sqrt (m\<^sup>2 + 1)\<bar>" by (simp add: power2_eq_iff abs_eq_iff)
  then have "\<bar>m * cx - cy + k\<bar> = r * sqrt (m\<^sup>2 + 1)" using c(3) pos by (simp add: abs_mult)
  then have eq: "dist_from_point (line_of P Q) (Point cx cy) - r = 0"
    unfolding d using pos by simp
  have A: "lA (line_of P Q) \<noteq> 0" using P(2) by simp
  show ?thesis
    unfolding intersect_with_line_def Let_def c point.sel
    using nlt eq A sf(5)
    by (simp add: sf(1,2) fin_def line_at_slope_form [OF sf(1,2)] del: line_of_fields)
qed


section \<open>Perpendicular and parallel through a point of the x-axis\<close>

text \<open>
  The mirror image of a point \<open>(p0, 0)\<close> in the line \<open>y = m x + k\<close> has the same
  distance from every point of the line.
\<close>

lemma mirror_equidistant:
  fixes m k p0 x :: real
  assumes e: "e = m * p0 + k" and lam: "lam * (m\<^sup>2 + 1) = e"
  shows "(p0 - 2 * lam * m - x)\<^sup>2 + (2 * lam - (m * x + k))\<^sup>2 = (p0 - x)\<^sup>2 + (0 - (m * x + k))\<^sup>2"
proof -
  have "(p0 - 2 * lam * m - x)\<^sup>2 + (2 * lam - (m * x + k))\<^sup>2 - ((p0 - x)\<^sup>2 + (0 - (m * x + k))\<^sup>2)
        = 4 * lam * (lam * (m\<^sup>2 + 1) - (m * p0 + k))"
    by (simp add: power2_eq_square algebra_simps)
  also have "\<dots> = 0" unfolding lam e by simp
  finally show ?thesis by simp
qed

lemma perp_core:
  assumes e: "e = m * p0 + k" "0 < e"
    and lam: "lam = e / (m\<^sup>2 + 1)"
    and x12: "x1 \<noteq> x2"
    and H0: "tol \<le> 2 * lam"
    and H1: "p0 - 2 * lam * m \<le> x1 \<or> (tol \<le> 2 * (p0 - 2 * lam * m - x1) \<and> tol \<le> 2 * \<bar>x1 - x2\<bar>)"
    and H2: "p0 \<le> x1 \<or> (tol \<le> 2 * (p0 - x1) \<and> tol \<le> 2 * \<bar>x1 - x2\<bar>)"
  shows "andthen (Circle (Point x1 (m * x1 + k)) (Point p0 0)) (\<lambda>c1.
         andthen (Circle (Point x2 (m * x2 + k)) (Point p0 0)) (\<lambda>c2.
         andthen (circle_intersect c1 c2) (\<lambda>ps.
         andthen (unpack2 ps) (\<lambda>(p1, p2). Line p1 p2))))
         = Inr (line_of (Point (p0 - 2 * lam * m) (2 * lam)) (Point p0 0))"
proof -
  have N: "0 < m\<^sup>2 + 1" by (simp add: add_nonneg_pos)
  have lamN: "lam * (m\<^sup>2 + 1) = e" using N by (simp add: lam)
  have lampos: "0 < lam" using e(2) N by (simp add: lam)
  have ne1: "px (Point x1 (m * x1 + k)) \<noteq> px (Point p0 0) \<or> py (Point x1 (m * x1 + k)) \<noteq> py (Point p0 0)"
    using e by auto
  have ne2: "px (Point x2 (m * x2 + k)) \<noteq> px (Point p0 0) \<or> py (Point x2 (m * x2 + k)) \<noteq> py (Point p0 0)"
    using e by auto
  define c1 where "c1 = circle_of (Point x1 (m * x1 + k)) (Point p0 0)"
  define c2 where "c2 = circle_of (Point x2 (m * x2 + k)) (Point p0 0)"
  have cen1: "center c1 = Point x1 (m * x1 + k)" and rad1: "radius c1 = dist_p (Point x1 (m * x1 + k)) (Point p0 0)"
    and cen2: "center c2 = Point x2 (m * x2 + k)" and rad2: "radius c2 = dist_p (Point x2 (m * x2 + k)) (Point p0 0)"
    by (simp_all add: c1_def c2_def)
  have r1sq: "(dist_p (Point x1 (m * x1 + k)) (Point p0 0))\<^sup>2 = (p0 - x1)\<^sup>2 + (0 - (m * x1 + k))\<^sup>2"
    unfolding dist_p_sq point.sel by (simp add: power2_eq_square algebra_simps)
  have r2sq: "(dist_p (Point x2 (m * x2 + k)) (Point p0 0))\<^sup>2 = (p0 - x2)\<^sup>2 + (0 - (m * x2 + k))\<^sup>2"
    unfolding dist_p_sq point.sel by (simp add: power2_eq_square algebra_simps)
  have cgi: "circle_get_intersection c1 c2 = Inr [Point (p0 - 2 * lam * m) (2 * lam), Point p0 0]"
  proof (rule cgi_geometric [OF cen1 rad1 dist_p_nonneg cen2 rad2 dist_p_nonneg x12])
    show "(p0 - 2 * lam * m - x1)\<^sup>2 + (2 * lam - (m * x1 + k))\<^sup>2 = (dist_p (Point x1 (m * x1 + k)) (Point p0 0))\<^sup>2"
      unfolding r1sq by (rule mirror_equidistant [OF e(1) lamN])
    show "(p0 - 2 * lam * m - x2)\<^sup>2 + (2 * lam - (m * x2 + k))\<^sup>2 = (dist_p (Point x2 (m * x2 + k)) (Point p0 0))\<^sup>2"
      unfolding r2sq by (rule mirror_equidistant [OF e(1) lamN])
    show "(p0 - x1)\<^sup>2 + (0 - (m * x1 + k))\<^sup>2 = (dist_p (Point x1 (m * x1 + k)) (Point p0 0))\<^sup>2"
      unfolding r1sq ..
    show "(p0 - x2)\<^sup>2 + (0 - (m * x2 + k))\<^sup>2 = (dist_p (Point x2 (m * x2 + k)) (Point p0 0))\<^sup>2"
      unfolding r2sq ..
    show "tol \<le> 2 * lam - 0" using H0 by simp
    show "p0 - 2 * lam * m \<le> x1 \<or> tol \<le> 2 * (p0 - 2 * lam * m - x1) \<and> tol \<le> 2 * \<bar>x1 - x2\<bar>"
      by (rule H1)
    show "p0 \<le> x1 \<or> tol \<le> 2 * (p0 - x1) \<and> tol \<le> 2 * \<bar>x1 - x2\<bar>"
      by (rule H2)
  qed
  have neM: "px (Point (p0 - 2 * lam * m) (2 * lam)) \<noteq> px (Point p0 0) \<or> py (Point (p0 - 2 * lam * m) (2 * lam)) \<noteq> py (Point p0 0)"
    using lampos by simp
  show ?thesis
    unfolding Circle_ok [OF ne1] Circle_ok [OF ne2] c1_def [symmetric] c2_def [symmetric]
    by (simp add: circle_intersect_def cgi Line_ok [OF neM])
qed

lemma radicand_on_line:
  "iwl_radicand p0 0 (dist_p (Point p0 0) (Point x (m * x + k))) m k
   = ((m\<^sup>2 + 1) * (x - p0) + m * (m * p0 + k))\<^sup>2"
  unfolding iwl_radicand_eq dist_p_sq point.sel
  by (simp add: power2_eq_square algebra_simps)

text \<open>
  The circle around \<open>(p0, 0)\<close> through a point \<open>L\<close> of the line \<open>y = m x + k\<close>
  meets the line in \<open>L\<close> and in the mirror image of \<open>L\<close> in the foot of the
  perpendicular; \<open>Fx\<close> is the abscissa of the foot.
\<close>

lemma iwl_through_point_of_line:
  assumes L: "px L1 \<noteq> px L2" "py L1 \<noteq> py L2"
    and m: "m = (py L2 - py L1) / (px L2 - px L1)" and k: "k = py L1 - m * px L1"
    and e: "e = m * p0 + k" "e \<noteq> 0"
    and Fx: "Fx = p0 - e / (m\<^sup>2 + 1) * m"
    and on: "py L = m * px L + k"
    and h: "h = \<bar>px L - Fx\<bar>" "px L \<noteq> Fx"
  shows "intersect_with_line (circle_of (Point p0 0) L) (line_of L1 L2)
         = Inr [Point (Fx - h) (m * (Fx - h) + k), Point (Fx + h) (m * (Fx + h) + k)]"
proof -
  define N where "N = m\<^sup>2 + 1"
  have N: "0 < N" by (simp add: N_def add_nonneg_pos)
  have Leq: "L = Point (px L) (m * px L + k)" using on by (cases L) simp
  have hpos: "0 < h" using h by simp
  have rpos: "0 < dist_p (Point p0 0) L"
    using e on by (intro dist_p_pos) auto
  have NF: "N * Fx = N * p0 - e * m" using N by (simp add: Fx N_def field_simps)
  have "N * (px L - p0) + m * e = N * (px L - Fx)"
    using NF by (simp add: algebra_simps)
  then have rad: "iwl_radicand p0 0 (dist_p (Point p0 0) L) m k = (N * h)\<^sup>2"
    by (subst Leq) (simp add: radicand_on_line N_def [symmetric] e(1) [symmetric] h(1) power_mult_distrib)
  have Nh: "0 < N * h" using N hpos by simp
  have n: "(p0 - k * m) / N = Fx"
  proof -
    have "p0 - k * m = N * p0 - e * m" by (simp add: N_def e(1) power2_eq_square algebra_simps)
    then have "p0 - k * m = N * Fx" using NF by simp
    then show ?thesis using N by simp
  qed
  have x1: "Fx - h = (- (N * h) + p0 + 0 * m - k * m) / (m\<^sup>2 + 1)"
  proof -
    have "(- (N * h) + p0 + 0 * m - k * m) / N = - h + (p0 - k * m) / N"
      using N by (simp add: field_simps)
    then show ?thesis unfolding n by (simp add: N_def)
  qed
  have x2: "Fx + h = (N * h + p0 + 0 * m - k * m) / (m\<^sup>2 + 1)"
  proof -
    have "(N * h + p0 + 0 * m - k * m) / N = h + (p0 - k * m) / N"
      using N by (simp add: field_simps)
    then show ?thesis unfolding n by (simp add: N_def)
  qed
  show ?thesis
    by (rule iwl_slope [OF L m k _ _ rpos rad Nh x1 x2]) simp_all
qed

lemma iwl_through_foot:
  assumes L: "px L1 \<noteq> px L2" "py L1 \<noteq> py L2"
    and m: "m = (py L2 - py L1) / (px L2 - px L1)" and k: "k = py L1 - m * px L1"
    and e: "e = m * p0 + k" "e \<noteq> 0"
    and Fx: "Fx = p0 - e / (m\<^sup>2 + 1) * m"
    and on: "py L = m * px L + k"
    and h: "px L = Fx"
  shows "\<exists>q. intersect_with_line (circle_of (Point p0 0) L) (line_of L1 L2) = Inr [q]"
proof -
  define N where "N = m\<^sup>2 + 1"
  have N: "0 < N" by (simp add: N_def add_nonneg_pos)
  have Leq: "L = Point (px L) (m * px L + k)" using on by (cases L) simp
  have rpos: "0 < dist_p (Point p0 0) L"
    using e on by (intro dist_p_pos) auto
  have NF: "N * Fx = N * p0 - e * m" using N by (simp add: Fx N_def field_simps)
  have "N * (px L - p0) + m * e = N * (px L - Fx)"
    using NF by (simp add: algebra_simps)
  then have rad: "iwl_radicand p0 0 (dist_p (Point p0 0) L) m k = 0"
    by (subst Leq) (simp add: radicand_on_line N_def [symmetric] e(1) [symmetric] h)
  show ?thesis
    by (rule iwl_slope_tangent [OF L m k _ _ rpos rad]) simp_all
qed

lemma perp_off_line:
  assumes L: "px L1 \<noteq> px L2" "py L1 \<noteq> py L2"
    and m: "m = (py L2 - py L1) / (px L2 - px L1)" and k: "k = py L1 - m * px L1"
    and e: "e = m * p0 + k" "0 < e"
    and lam: "lam = e / (m\<^sup>2 + 1)"
    and Fx: "Fx = p0 - lam * m"
    and h: "h = (if px L1 = Fx then \<bar>px L2 - Fx\<bar> else \<bar>px L1 - Fx\<bar>)"
    and H0: "tol \<le> 2 * lam"
    and H1: "h \<le> lam * m \<or> (tol \<le> 2 * (h - lam * m) \<and> tol \<le> 4 * h)"
    and H2: "h + lam * m \<le> 0 \<or> (tol \<le> 2 * (h + lam * m) \<and> tol \<le> 4 * h)"
  shows "get_perpendicular_to_line_through_point (Point p0 0) (line_of L1 L2)
         = Inr (line_of (Point (p0 - 2 * lam * m) (2 * lam)) (Point p0 0))"
proof -
  note sf = line_of_slope_form [OF L(1) m k]
  have N: "0 < m\<^sup>2 + 1" by (simp add: add_nonneg_pos)
  have ene: "e \<noteq> 0" using e(2) by simp
  have Fx': "Fx = p0 - e / (m\<^sup>2 + 1) * m" by (simp add: Fx lam)
  have on1: "py L1 = m * px L1 + k" by (simp add: k)
  have "m * (px L2 - px L1) = py L2 - py L1" using L(1) by (simp add: m)
  then have on2: "py L2 = m * px L2 + k" by (simp add: k algebra_simps)
  have d: "dist_from_point (line_of L1 L2) (Point p0 0) > 0"
    unfolding dist_from_point_slope_form [OF sf(3,4,5)] using e N by simp
  have ne1: "px (Point p0 0) \<noteq> px L1 \<or> py (Point p0 0) \<noteq> py L1" using e on1 by auto
  have ne2: "px (Point p0 0) \<noteq> px L2 \<or> py (Point p0 0) \<noteq> py L2" using e on2 by auto
  have hpos: "0 < h" using L(1) by (auto simp: h)
  have x12: "Fx - h \<noteq> Fx + h" using hpos by simp
  have absx: "\<bar>Fx - h - (Fx + h)\<bar> = 2 * h" using hpos by simp
  have H1': "p0 - 2 * lam * m \<le> Fx - h \<or>
             (tol \<le> 2 * (p0 - 2 * lam * m - (Fx - h)) \<and> tol \<le> 2 * \<bar>Fx - h - (Fx + h)\<bar>)"
    unfolding absx Fx using H1 by argo
  have H2': "p0 \<le> Fx - h \<or> (tol \<le> 2 * (p0 - (Fx - h)) \<and> tol \<le> 2 * \<bar>Fx - h - (Fx + h)\<bar>)"
    unfolding absx Fx using H2 by argo
  note core = perp_core [OF e lam x12 H0 H1' H2']
  show ?thesis
  proof (cases "px L1 = Fx")
    case True
    obtain q where q: "intersect_with_line (circle_of (Point p0 0) L1) (line_of L1 L2) = Inr [q]"
      using iwl_through_foot [OF L m k e(1) ene Fx' on1 True] by blast
    have ne: "px L2 \<noteq> Fx" using True L(1) by simp
    have h2: "h = \<bar>px L2 - Fx\<bar>" using True by (simp add: h)
    note i2 = iwl_through_point_of_line [OF L m k e(1) ene Fx' on2 h2 ne]
    show ?thesis
      unfolding get_perpendicular_to_line_through_point_def if_P [OF d]
      by (simp add: Circle_ok [OF ne1] Circle_ok [OF ne2] q i2 core)
  next
    case False
    have h1: "h = \<bar>px L1 - Fx\<bar>" using False by (simp add: h)
    note i1 = iwl_through_point_of_line [OF L m k e(1) ene Fx' on1 h1 False]
    show ?thesis
      unfolding get_perpendicular_to_line_through_point_def if_P [OF d]
      by (simp add: Circle_ok [OF ne1] i1 core)
  qed
qed

lemma inverse_cancel: "(d::real) \<noteq> 0 \<Longrightarrow> inverse d * (d * v) = v"
  by simp

lemma parallel_through:
  assumes L: "px L1 \<noteq> px L2" "py L1 \<noteq> py L2"
    and m: "m = (py L2 - py L1) / (px L2 - px L1)" and k: "k = py L1 - m * px L1"
    and e: "e = m * p0 + k" "0 < e"
    and lam: "lam = e / (m\<^sup>2 + 1)"
    and Fx: "Fx = p0 - lam * m"
    and h: "h = (if px L1 = Fx then \<bar>px L2 - Fx\<bar> else \<bar>px L1 - Fx\<bar>)"
    and g: "g = lam * \<bar>m\<bar>"
    and H0: "tol \<le> 2 * lam"
    and H1: "h \<le> lam * m \<or> (tol \<le> 2 * (h - lam * m) \<and> tol \<le> 4 * h)"
    and H2: "h + lam * m \<le> 0 \<or> (tol \<le> 2 * (h + lam * m) \<and> tol \<le> 4 * h)"
    and H3: "tol \<le> 2 * g"
    and H4: "sqrt 3 * g / m + g \<le> 0 \<or> tol \<le> 2 * (sqrt 3 * g / m + g)"
    and H5: "g \<le> sqrt 3 * g / m \<or> tol \<le> 2 * (g - sqrt 3 * g / m)"
  shows "get_parallel_to_line_through_point (Point p0 0) (line_of L1 L2)
         = Inr (line_of (Point (p0 + sqrt 3 * g / m) (sqrt 3 * g)) (Point (p0 - sqrt 3 * g / m) (- (sqrt 3 * g))))"
proof -
  note sf = line_of_slope_form [OF L(1) m k]
  define N where "N = m\<^sup>2 + 1"
  have N: "0 < N" by (simp add: N_def add_nonneg_pos)
  have mnz: "m \<noteq> 0" using L by (simp add: m)
  have lampos: "0 < lam" using e(2) N by (simp add: lam N_def)
  have lamN: "lam * N = e" using N by (simp add: lam N_def)
  have gpos: "0 < g" using lampos mnz by (simp add: g)
  define M where "M = Point (p0 - 2 * lam * m) (2 * lam)"
  define p where "p = Point p0 0"
  have perp: "get_perpendicular_to_line_through_point p (line_of L1 L2) = Inr (line_of M p)"
    unfolding p_def M_def by (rule perp_off_line [OF L m k e lam Fx h H0 H1 H2])
  \<comment> \<open>the foot of the perpendicular\<close>
  define B where "B = lB (line_of L1 L2)"
  have Bnz: "B \<noteq> 0" using sf(5) by (simp add: B_def)
  have det: "lA (line_of L1 L2) * lB (line_of M p) - lB (line_of L1 L2) * lA (line_of M p) = - (2 * lam * B * N)"
    unfolding sf(3) B_def [symmetric] by (simp add: M_def p_def N_def power2_eq_square algebra_simps)
  have detnz: "- (2 * lam * B * N) \<noteq> 0" using lampos Bnz N by simp
  have numx: "lB (line_of M p) * (- lC (line_of L1 L2)) + lB (line_of L1 L2) * lC (line_of M p)
          = - (2 * lam * B * N) * (p0 - lam * m)"
  proof -
    have "lB (line_of M p) * (- lC (line_of L1 L2)) + lB (line_of L1 L2) * lC (line_of M p)
          = - (2 * lam * B) * (p0 - m * k)"
      unfolding sf(4) B_def [symmetric] by (simp add: M_def p_def algebra_simps)
    moreover have "p0 - m * k = N * p0 - m * e"
      by (simp add: N_def e(1) power2_eq_square algebra_simps)
    moreover have "N * p0 - m * e = N * (p0 - lam * m)"
      unfolding lamN [symmetric] by (simp add: algebra_simps)
    ultimately show ?thesis by simp
  qed
  have numy: "lA (line_of M p) * lC (line_of L1 L2) - lA (line_of L1 L2) * lC (line_of M p)
          = - (2 * lam * B * N) * lam"
  proof -
    have "lA (line_of M p) * lC (line_of L1 L2) - lA (line_of L1 L2) * lC (line_of M p)
          = - (2 * lam * B) * e"
      unfolding sf(3,4) B_def [symmetric] by (simp add: M_def p_def e(1) algebra_simps)
    then show ?thesis unfolding lamN [symmetric] by simp
  qed
  have foot: "line_intersect (line_of L1 L2) (line_of M p) = Inr (Point (p0 - lam * m) lam)"
  proof -
    have inv: "inverse (- (2 * lam * B * N)) * (- (2 * lam * B * N) * v) = v" for v
      by (rule inverse_cancel [OF detnz])
    show ?thesis
      unfolding line_intersect_def line_get_intersection_def Let_def det numx numy inv
      using detnz by simp
  qed
  \<comment> \<open>the chord on the perpendicular\<close>
  define c where "c = circle_of p (Point (p0 - lam * m) lam)"
  have cok: "Circle p (Point (p0 - lam * m) lam) = Inr c"
    unfolding c_def using lampos by (intro Circle_ok) (simp add: p_def)
  have cen: "center c = Point p0 0" by (simp add: c_def p_def)
  have rad2: "(radius c)\<^sup>2 = lam\<^sup>2 * N"
    unfolding c_def p_def circle_of_fields dist_p_sq point.sel N_def
    by (simp add: power2_eq_square algebra_simps)
  have radpos: "0 < radius c"
    unfolding c_def circle_of_fields using lampos by (intro dist_p_pos) (simp add: p_def)
  have PM: "px M \<noteq> px p" "py M \<noteq> py p" using lampos mnz by (simp_all add: M_def p_def)
  have m': "- (1 / m) = (py p - py M) / (px p - px M)"
    using lampos mnz by (simp add: M_def p_def field_simps)
  have k': "p0 / m = py M - - (1 / m) * px M"
    using mnz by (simp add: M_def field_simps)
  define w where "w = lam * N / \<bar>m\<bar>"
  have wpos: "0 < w" using lampos N mnz by (simp add: w_def)
  have radc: "iwl_radicand p0 0 (radius c) (- (1 / m)) (p0 / m) = w\<^sup>2"
  proof -
    have "iwl_radicand p0 0 (radius c) (- (1 / m)) (p0 / m) = (1 / m\<^sup>2 + 1) * (lam\<^sup>2 * N)"
      unfolding iwl_radicand_eq rad2 using mnz by (simp add: power_divide)
    also have "1 / m\<^sup>2 + 1 = N / m\<^sup>2" using mnz by (simp add: N_def field_simps)
    also have "N / m\<^sup>2 * (lam\<^sup>2 * N) = w\<^sup>2"
      by (simp add: w_def power_divide power_mult_distrib power2_eq_square)
    finally show ?thesis .
  qed
  have wm: "w * m\<^sup>2 = g * N"
  proof -
    have "w * \<bar>m\<bar> = lam * N" using mnz by (simp add: w_def)
    then have "(w * \<bar>m\<bar>) * \<bar>m\<bar> = lam * N * \<bar>m\<bar>" by simp
    moreover have "(w * \<bar>m\<bar>) * \<bar>m\<bar> = w * (\<bar>m\<bar> * \<bar>m\<bar>)" by simp
    ultimately show ?thesis unfolding abs_mult_self_eq by (simp add: g power2_eq_square)
  qed
  have den: "(- (1 / m))\<^sup>2 + 1 = N / m\<^sup>2" using mnz by (simp add: N_def field_simps power_divide)
  have xa: "p0 - g = (- w + p0 + 0 * - (1 / m) - p0 / m * - (1 / m)) / ((- (1 / m))\<^sup>2 + 1)"
  proof -
    have "(- w + p0 + p0 / m\<^sup>2) * m\<^sup>2 = - (w * m\<^sup>2) + p0 * N"
      using mnz by (simp add: N_def field_simps)
    then have "(- w + p0 + p0 / m\<^sup>2) * m\<^sup>2 = (p0 - g) * N" unfolding wm by (simp add: algebra_simps)
    then have "(- w + p0 + p0 / m\<^sup>2) / (N / m\<^sup>2) = p0 - g" using mnz N by (simp add: field_simps)
    then show ?thesis unfolding den by (simp add: power2_eq_square)
  qed
  have xb: "p0 + g = (w + p0 + 0 * - (1 / m) - p0 / m * - (1 / m)) / ((- (1 / m))\<^sup>2 + 1)"
  proof -
    have "(w + p0 + p0 / m\<^sup>2) * m\<^sup>2 = w * m\<^sup>2 + p0 * N"
      using mnz by (simp add: N_def field_simps)
    then have "(w + p0 + p0 / m\<^sup>2) * m\<^sup>2 = (p0 + g) * N" unfolding wm by (simp add: algebra_simps)
    then have "(w + p0 + p0 / m\<^sup>2) / (N / m\<^sup>2) = p0 + g" using mnz N by (simp add: field_simps)
    then show ?thesis unfolding den by (simp add: power2_eq_square)
  qed
  have chord: "intersect_with_line c (line_of M p)
               = Inr [Point (p0 - g) (- (1 / m) * (p0 - g) + p0 / m), Point (p0 + g) (- (1 / m) * (p0 + g) + p0 / m)]"
    by (rule iwl_slope [OF PM m' k' cen refl radpos radc wpos xa xb])
  have ya: "- (1 / m) * (p0 - g) + p0 / m = g / m" using mnz by (simp add: field_simps)
  have yb: "- (1 / m) * (p0 + g) + p0 / m = - (g / m)" using mnz by (simp add: field_simps)
  \<comment> \<open>the bisector of the chord\<close>
  define E1 where "E1 = Point (p0 - g) (g / m)"
  define E2 where "E2 = Point (p0 + g) (- (g / m))"
  have chord': "intersect_with_line c (line_of M p) = Inr [E1, E2]"
    unfolding chord E1_def E2_def ya yb ..
  have E12: "Line E1 E2 = Inr (line_of E1 E2)"
    using gpos by (intro Line_ok) (simp add: E1_def E2_def)
  have dxnz: "p0 - g - (p0 + g) \<noteq> 0" using gpos by simp
  have sg: "sgn (p0 - g - (p0 + g)) = - 1" using gpos by simp
  have bis: "get_perpendicular_bisector (line_of E1 E2)
             = Inr (line_of (Point (p0 + sqrt 3 * g / m) (sqrt 3 * g)) (Point (p0 - sqrt 3 * g / m) (- (sqrt 3 * g))))"
  proof (rule get_perpendicular_bisector_val [where ?p1x.0 = "p0 - g" and ?p1y.0 = "g / m"
        and ?p2x.0 = "p0 + g" and ?p2y.0 = "- (g / m)", OF _ _ refl refl dxnz refl])
    show "lp1 (line_of E1 E2) = Point (p0 - g) (g / m)" by (simp add: E1_def)
    show "lp2 (line_of E1 E2) = Point (p0 + g) (- (g / m))" by (simp add: E2_def)
    show "p0 + sqrt 3 * g / m = (p0 - g + (p0 + g)) / 2 - sgn (p0 - g - (p0 + g)) * (g / m - - (g / m)) * sqrt 3 / 2"
      unfolding sg by (simp add: field_simps)
    show "sqrt 3 * g = (g / m + - (g / m)) / 2 + sgn (p0 - g - (p0 + g)) * (p0 - g - (p0 + g)) * sqrt 3 / 2"
      unfolding sg by (simp add: field_simps)
    show "p0 - sqrt 3 * g / m = (p0 - g + (p0 + g)) / 2 + sgn (p0 - g - (p0 + g)) * (g / m - - (g / m)) * sqrt 3 / 2"
      unfolding sg by (simp add: field_simps)
    show "- (sqrt 3 * g) = (g / m + - (g / m)) / 2 - sgn (p0 - g - (p0 + g)) * (p0 - g - (p0 + g)) * sqrt 3 / 2"
      unfolding sg by (simp add: field_simps)
    have a: "\<bar>p0 - g - (p0 + g)\<bar> = 2 * g" using gpos by simp
    have "2 * g = 1 * (2 * g)" by simp
    also have "\<dots> \<le> sqrt 3 * (2 * g)" using gpos by (intro mult_right_mono) simp_all
    finally show "tol \<le> sqrt 3 * \<bar>p0 - g - (p0 + g)\<bar>" unfolding a using H3 by simp
    have t4: "tol \<le> 2 * (2 * g)" using H3 gpos by simp
    show "p0 + sqrt 3 * g / m \<le> p0 - g \<or>
          tol \<le> 2 * (p0 + sqrt 3 * g / m - (p0 - g)) \<and> tol \<le> 2 * \<bar>p0 - g - (p0 + g)\<bar>"
      unfolding a using H4 t4 by argo
    show "p0 - sqrt 3 * g / m \<le> p0 - g \<or>
          tol \<le> 2 * (p0 - sqrt 3 * g / m - (p0 - g)) \<and> tol \<le> 2 * \<bar>p0 - g - (p0 + g)\<bar>"
      unfolding a using H5 t4 by argo
  qed
  show ?thesis
    unfolding get_parallel_to_line_through_point_def p_def [symmetric] perp
    by (simp add: foot cok chord' E12 bis del: line_of_fields)
qed


section \<open>Multiplication and exact division as constructions\<close>

lemma dist_p_eqI:
  assumes "r\<^sup>2 = (px p - px q)\<^sup>2 + (py p - py q)\<^sup>2" "0 \<le> r"
  shows "dist_p p q = r"
  unfolding dist_p_def using assms by (rule real_sqrt_unique)

lemma mirror_point_unit_y_axis:
  "mirror_point unit (line_of (Point 0 (sqrt 3)) (Point 0 0)) = Inr (Point (- 1) 0)"
proof -
  define ya where "ya = line_of (Point 0 (sqrt 3)) (Point 0 0)"
  have d: "dist_from_point ya unit > 0"
    by (simp add: ya_def dist_from_point_def unit_def)
  define c where "c = circle_of unit (Point 0 (sqrt 3))"
  have cok: "Circle unit (lp1 ya) = Inr c"
    by (simp add: ya_def c_def unit_def Circle_ok)
  have cen: "center c = Point 1 0" by (simp add: c_def unit_def)
  have rad: "radius c = 2"
    unfolding c_def circle_of_fields by (rule dist_p_eqI) (simp_all add: unit_def)
  have s43: "sqrt (2\<^sup>2 - (0 - 1)\<^sup>2) = sqrt 3" by simp
  have i1: "intersect_with_line c ya = Inr [Point 0 (sqrt 3), Point 0 (- sqrt 3)]"
    unfolding ya_def using iwl_vertical_line_of [of "sqrt 3" 0 c 1 0 0] cen
    by (simp add: rad)
  define c1 where "c1 = circle_of (Point 0 (sqrt 3)) unit"
  define c2 where "c2 = circle_of (Point 0 (- sqrt 3)) unit"
  have c1ok: "Circle (Point 0 (sqrt 3)) unit = Inr c1" and c2ok: "Circle (Point 0 (- sqrt 3)) unit = Inr c2"
    by (simp_all add: c1_def c2_def unit_def Circle_ok)
  have rad1: "radius c1 = 2"
    unfolding c1_def circle_of_fields by (rule dist_p_eqI) (simp_all add: unit_def)
  have rad2: "radius c2 = 2"
    unfolding c2_def circle_of_fields by (rule dist_p_eqI) (simp_all add: unit_def)
  have cen1: "center c1 = Point 0 (sqrt 3)" and cen2: "center c2 = Point 0 (- sqrt 3)"
    by (simp_all add: c1_def c2_def)
  have dy: "2 * sqrt 3 = sqrt 3 - - sqrt 3" by simp
  have dynz: "2 * sqrt 3 \<noteq> 0" by simp
  have K: "(12::real) = (2 * sqrt 3)\<^sup>2 + 2\<^sup>2 - 2\<^sup>2" by (simp add: power_mult_distrib)
  have real: "(12::real)\<^sup>2 \<le> 4 * (2 * sqrt 3)\<^sup>2 * 2\<^sup>2" by (simp add: power_mult_distrib)
  have "(2 * sqrt 3)\<^sup>2 < 4\<^sup>2" by (simp add: power_mult_distrib)
  then have lt: "\<bar>2 * sqrt 3\<bar> < 2 + 2" by (simp add: abs_square_less_1 power2_less_imp_less)
  have q: "12 / (2 * (2 * sqrt 3)) = sqrt 3"
  proof -
    have "sqrt 3 * (2 * (2 * sqrt 3)) = 12" by simp
    then show ?thesis by (simp add: field_simps)
  qed
  have y0: "(0::real) = sqrt 3 - 12 / (2 * (2 * sqrt 3))" unfolding q by simp
  have t1: "(1::real) = sqrt (2\<^sup>2 - (12 / (2 * (2 * sqrt 3)))\<^sup>2)" unfolding q by simp
  have cgi: "circle_get_intersection c1 c2 = Inr [Point (0 + 1) 0, Point (0 - 1) 0]"
    by (rule cgi_vertical [OF cen1 rad1 cen2 rad2 dy dynz K real lt y0 t1])
  have l12: "Line (Point 1 0) (Point (- 1) 0) = Inr (line_of (Point 1 0) (Point (- 1) 0))"
    by (simp add: Line_ok)
  have perp: "get_perpendicular_to_line_through_point unit ya = Inr (line_of (Point 1 0) (Point (- 1) 0))"
    unfolding get_perpendicular_to_line_through_point_def if_P [OF d] cok
    by (simp add: i1 c1ok c2ok circle_intersect_def cgi l12)
  have a: "line_intersect ya (line_of (Point 1 0) (Point (- 1) 0)) = Inr (Point 0 0)"
    by (simp add: line_intersect_def line_get_intersection_def ya_def)
  define c0 where "c0 = circle_of (Point 0 0) (Point 1 0)"
  have c0ok: "Circle (Point 0 0) (Point 1 0) = Inr c0" by (simp add: c0_def Circle_ok)
  have i2: "intersect_with_line c0 (line_of (Point 1 0) (Point (- 1) 0)) = Inr [Point 1 0, Point (- 1) 0]"
    using iwl_horizontal_line_of [of 1 "- 1" c0 0 0 0] by (simp add: c0_def)
  show ?thesis
    unfolding mirror_point_def ya_def [symmetric] perp
    by (simp add: a c0ok i2 isEqual_def unit_def)
qed

text \<open>Where the parallel of the last lemma meets the y-axis.\<close>

lemma parallel_meets_y_axis:
  assumes "m \<noteq> 0" "0 < g"
  shows "line_intersect (line_of (Point 0 (sqrt 3)) (Point 0 0))
           (line_of (Point (p0 + sqrt 3 * g / m) (sqrt 3 * g)) (Point (p0 - sqrt 3 * g / m) (- (sqrt 3 * g))))
         = Inr (Point 0 (- (m * p0)))"
proof -
  define d where "d = - (6 * g / m)"
  have dnz: "d \<noteq> 0" using assms by (simp add: d_def)
  have det: "lA (line_of (Point 0 (sqrt 3)) (Point 0 0)) *
        lB (line_of (Point (p0 + sqrt 3 * g / m) (sqrt 3 * g)) (Point (p0 - sqrt 3 * g / m) (- (sqrt 3 * g)))) -
        lB (line_of (Point 0 (sqrt 3)) (Point 0 0)) *
        lA (line_of (Point (p0 + sqrt 3 * g / m) (sqrt 3 * g)) (Point (p0 - sqrt 3 * g / m) (- (sqrt 3 * g)))) = d"
    using assms by (simp add: d_def field_simps)
  have numx: "lB (line_of (Point (p0 + sqrt 3 * g / m) (sqrt 3 * g)) (Point (p0 - sqrt 3 * g / m) (- (sqrt 3 * g)))) *
        (- lC (line_of (Point 0 (sqrt 3)) (Point 0 0))) +
        lB (line_of (Point 0 (sqrt 3)) (Point 0 0)) *
        lC (line_of (Point (p0 + sqrt 3 * g / m) (sqrt 3 * g)) (Point (p0 - sqrt 3 * g / m) (- (sqrt 3 * g)))) = d * 0"
    by simp
  have numy: "lA (line_of (Point (p0 + sqrt 3 * g / m) (sqrt 3 * g)) (Point (p0 - sqrt 3 * g / m) (- (sqrt 3 * g)))) *
        lC (line_of (Point 0 (sqrt 3)) (Point 0 0)) -
        lA (line_of (Point 0 (sqrt 3)) (Point 0 0)) *
        lC (line_of (Point (p0 + sqrt 3 * g / m) (sqrt 3 * g)) (Point (p0 - sqrt 3 * g / m) (- (sqrt 3 * g)))) = d * (- (m * p0))"
    using assms by (simp add: d_def field_simps)
  show ?thesis
    unfolding line_intersect_def line_get_intersection_def Let_def det numx numy inverse_cancel [OF dnz]
    using dnz by simp
qed

lemma origin_unit_sel [simp]: "px origin = 0" "py origin = 0" "px unit = 1" "py unit = 0"
  by (simp_all add: origin_def unit_def)

lemma pnt_copy [simp]: "pnt (copy a) = pnt a"
  by (simp add: copy_def)

lemma circle_origin_y_axis:
  assumes "0 < a"
  shows "andthen (Circle origin (Point a 0)) (\<lambda>c.
           intersect_with_line c (line_of (Point 0 (sqrt 3)) (Point 0 0)))
         = Inr [Point 0 a, Point 0 (- a)]"
proof -
  define c where "c = circle_of (Point 0 0) (Point a 0)"
  have cok: "Circle origin (Point a 0) = Inr c"
    using assms by (simp add: c_def origin_def Circle_ok)
  have cen: "center c = Point 0 0" and rad: "radius c = a"
    using assms by (simp_all add: c_def)
  have "intersect_with_line c (line_of (Point 0 (sqrt 3)) (Point 0 0)) = Inr [Point 0 a, Point 0 (- a)]"
    using iwl_vertical_line_of [of "sqrt 3" 0 c 0 0 0] cen assms by (simp add: rad)
  then show ?thesis by (simp add: cok)
qed

lemma circle_origin_x_axis:
  assumes "v \<noteq> 0"
  shows "andthen (Circle origin (Point 0 v)) (\<lambda>c. intersect_with_line c (line_of origin unit))
         = Inr [Point \<bar>v\<bar> 0, Point (- \<bar>v\<bar>) 0]"
proof -
  define c where "c = circle_of (Point 0 0) (Point 0 v)"
  have cok: "Circle origin (Point 0 v) = Inr c"
    using assms by (simp add: c_def origin_def Circle_ok)
  have "intersect_with_line c (line_of (Point 0 0) (Point 1 0)) = Inr [Point \<bar>v\<bar> 0, Point (- \<bar>v\<bar>) 0]"
    using iwl_on_x_axis [of 1 c] assms by (simp add: c_def)
  then show ?thesis unfolding cok by (simp add: origin_def unit_def)
qed

text \<open>
  Multiplication of two abscissae other than 0 and 1, under the conditions on their
  absolute values that keep every choice between candidate points clear of the tolerance.
\<close>

lemma mul_nonzero:
  assumes a: "a \<noteq> 0" "a \<noteq> 1" and b: "b \<noteq> 0" "b \<noteq> 1"
    and A: "A = \<bar>a\<bar>" and B: "B = \<bar>b\<bar>"
    and lam: "lam = (A * B + A) / (A\<^sup>2 + 1)"
    and Fx: "Fx = B - lam * A"
    and h: "h = (if 0 = Fx then \<bar>- 1 - Fx\<bar> else \<bar>0 - Fx\<bar>)"
    and g: "g = lam * \<bar>A\<bar>"
    and H0: "tol \<le> 2 * lam"
    and H1: "h \<le> lam * A \<or> (tol \<le> 2 * (h - lam * A) \<and> tol \<le> 4 * h)"
    and H2: "h + lam * A \<le> 0 \<or> (tol \<le> 2 * (h + lam * A) \<and> tol \<le> 4 * h)"
    and H3: "tol \<le> 2 * g"
    and H4: "sqrt 3 * g / A + g \<le> 0 \<or> tol \<le> 2 * (sqrt 3 * g / A + g)"
    and H5: "g \<le> sqrt 3 * g / A \<or> tol \<le> 2 * (g - sqrt 3 * g / A)"
  shows "mul (CasNum (Point a 0)) (CasNum (Point b 0)) = Inr (CasNum (Point (a * b) 0))"
proof -
  have Apos: "0 < A" and Bpos: "0 < B" using a b by (simp_all add: A B)
  have L: "px (Point 0 A) \<noteq> px (Point (- 1) 0)" "py (Point 0 A) \<noteq> py (Point (- 1) 0)"
    using Apos by simp_all
  have m: "A = (py (Point (- 1) 0) - py (Point 0 A)) / (px (Point (- 1) 0) - px (Point 0 A))"
    by simp
  have k: "A = py (Point 0 A) - A * px (Point 0 A)" by simp
  have e: "0 < A * B + A" using Apos Bpos by (simp add: add_pos_pos)
  have gpos: "0 < g" using e Apos by (simp add: g lam add_nonneg_pos)
  define Q1 where "Q1 = Point (B + sqrt 3 * g / A) (sqrt 3 * g)"
  define Q2 where "Q2 = Point (B - sqrt 3 * g / A) (- (sqrt 3 * g))"
  have par: "get_parallel_to_line_through_point (Point B 0) (line_of (Point 0 A) (Point (- 1) 0))
             = Inr (line_of Q1 Q2)"
    unfolding Q1_def Q2_def
    by (rule parallel_through [OF L m k refl e lam Fx _ g H0 H1 H2 H3 H4 H5]) (simp add: h)
  have Anz: "A \<noteq> 0" using Apos by simp
  have meet: "line_intersect (line_of (Point 0 (sqrt 3)) (Point 0 0)) (line_of Q1 Q2)
        = Inr (Point 0 (- (A * B)))"
    unfolding Q1_def Q2_def by (rule parallel_meets_y_axis [OF Anz gpos])
  have abnz: "- (A * B) \<noteq> 0" using Apos Bpos by simp
  have ab: "\<bar>A * B\<bar> = A * B" using Apos Bpos by simp
  have l1: "Line (Point 0 A) (Point (- 1) 0) = Inr (line_of (Point 0 A) (Point (- 1) 0))"
    by (simp add: Line_ok)
  have t1: "\<not> cn_isEqual (CasNum (Point b 0)) one" "\<not> cn_isEqual (CasNum (Point a 0)) one"
    "\<not> cn_isEqual (CasNum (Point A 0)) zero" "\<not> cn_isEqual (CasNum (Point B 0)) zero"
    using a b Apos Bpos by (simp_all add: cn_isEqual_def isEqual_def one_def zero_def)
  have acpy: "(if cn_lt (copy (CasNum (Point a 0))) zero then neg (copy (CasNum (Point a 0)))
               else Inr (copy (CasNum (Point a 0)))) = Inr (CasNum (Point A 0))"
    by (simp add: cn_lt_def cn_gt_def zero_def copy_def neg_val A)
  have bcpy: "(if cn_lt (copy (CasNum (Point b 0))) zero then neg (copy (CasNum (Point b 0)))
               else Inr (copy (CasNum (Point b 0)))) = Inr (CasNum (Point B 0))"
    by (simp add: cn_lt_def cn_gt_def zero_def copy_def neg_val B)
  note i1 = circle_origin_y_axis [OF Apos]
  note i2 = circle_origin_x_axis [OF abnz]
  have c1: "Circle origin (Point A 0) = Inr (circle_of origin (Point A 0))"
    using Apos by (intro Circle_ok) simp
  have c2: "Circle origin (Point 0 (- (A * B))) = Inr (circle_of origin (Point 0 (- (A * B))))"
    using abnz by (intro Circle_ok) simp
  have i1': "intersect_with_line (circle_of origin (Point A 0)) (line_of (Point 0 (sqrt 3)) (Point 0 0))
             = Inr [Point 0 A, Point 0 (- A)]"
    using i1 unfolding c1 by simp
  have i2': "intersect_with_line (circle_of origin (Point 0 (- (A * B)))) (line_of origin unit)
             = Inr [Point (A * B) 0, Point (- (A * B)) 0]"
    using i2 ab unfolding c2 by simp
  have pos: "0 < A * B" using Apos Bpos by simp
  have sign: "andthen (if cn_lt (CasNum (Point a 0)) zero then neg (CasNum (Point (A * B) 0))
                       else Inr (CasNum (Point (A * B) 0)))
                (\<lambda>ret. andthen (if cn_lt (CasNum (Point b 0)) zero then neg ret else Inr ret) Inr)
              = Inr (CasNum (Point (a * b) 0))"
    by (simp add: cn_lt_def cn_gt_def zero_def neg_val A B abs_if)
  show ?thesis
    unfolding mul_def y_axis_val x_axis_val acpy bcpy
    by (simp add: t1 mirror_point_unit_y_axis c1 i1' Apos l1 par meet c2 i2' pos sign del: line_of_fields)
qed

text \<open>Exact division of two abscissae other than 0, under the same kind of conditions.\<close>

lemma truediv_nonzero:
  assumes a: "a \<noteq> 0" and b: "b \<noteq> 0"
    and A: "A = \<bar>a\<bar>" and B: "B = \<bar>b\<bar>"
    and m: "m = - (A / B)"
    and lam: "lam = (A / B + A) / (m\<^sup>2 + 1)"
    and Fx: "Fx = - 1 - lam * m"
    and h: "h = (if 0 = Fx then \<bar>B - Fx\<bar> else \<bar>0 - Fx\<bar>)"
    and g: "g = lam * \<bar>m\<bar>"
    and H0: "tol \<le> 2 * lam"
    and H1: "h \<le> lam * m \<or> (tol \<le> 2 * (h - lam * m) \<and> tol \<le> 4 * h)"
    and H2: "h + lam * m \<le> 0 \<or> (tol \<le> 2 * (h + lam * m) \<and> tol \<le> 4 * h)"
    and H3: "tol \<le> 2 * g"
    and H4: "sqrt 3 * g / m + g \<le> 0 \<or> tol \<le> 2 * (sqrt 3 * g / m + g)"
    and H5: "g \<le> sqrt 3 * g / m \<or> tol \<le> 2 * (g - sqrt 3 * g / m)"
  shows "truediv (CasNum (Point a 0)) (CasNum (Point b 0)) = Inr (CasNum (Point (a / b) 0))"
proof -
  have Apos: "0 < A" and Bpos: "0 < B" using a b by (simp_all add: A B)
  have L: "px (Point 0 A) \<noteq> px (Point B 0)" "py (Point 0 A) \<noteq> py (Point B 0)"
    using Apos Bpos by simp_all
  have m': "m = (py (Point B 0) - py (Point 0 A)) / (px (Point B 0) - px (Point 0 A))"
    by (simp add: m)
  have k: "A = py (Point 0 A) - m * px (Point 0 A)" by simp
  have e: "A / B + A = m * (- 1) + A" by (simp add: m)
  have epos: "0 < m * (- 1) + A" using Apos Bpos by (simp add: m add_pos_pos)
  have mnz: "m \<noteq> 0" using Apos Bpos by (simp add: m)
  have gpos: "0 < g" using epos mnz unfolding g lam e by (simp add: add_nonneg_pos)
  define Q1 where "Q1 = Point (- 1 + sqrt 3 * g / m) (sqrt 3 * g)"
  define Q2 where "Q2 = Point (- 1 - sqrt 3 * g / m) (- (sqrt 3 * g))"
  have par: "get_parallel_to_line_through_point (Point (- 1) 0) (line_of (Point 0 A) (Point B 0))
             = Inr (line_of Q1 Q2)"
    unfolding Q1_def Q2_def
    by (rule parallel_through [OF L m' k refl epos lam [unfolded e] Fx _ g H0 H1 H2 H3 H4 H5]) (simp add: h)
  have meet: "line_intersect (line_of (Point 0 (sqrt 3)) (Point 0 0)) (line_of Q1 Q2)
        = Inr (Point 0 (- (A / B)))"
    unfolding Q1_def Q2_def
    using parallel_meets_y_axis [OF mnz gpos, of "- 1"] by (simp add: m)
  have abnz: "- (A / B) \<noteq> 0" using Apos Bpos by simp
  have ab: "\<bar>A / B\<bar> = A / B" using Apos Bpos by simp
  have l1: "Line (Point 0 A) (Point B 0) = Inr (line_of (Point 0 A) (Point B 0))"
    using Bpos by (simp add: Line_ok)
  have t1: "\<not> cn_isEqual (CasNum (Point b 0)) zero"
    "\<not> cn_eq (CasNum (Point A 0)) zero" "\<not> cn_eq (CasNum (Point B 0)) zero"
    using b Apos Bpos by (simp_all add: cn_isEqual_def cn_eq_def isEqual_def zero_def)
  have acpy: "(if cn_lt (copy (CasNum (Point a 0))) zero then neg (copy (CasNum (Point a 0)))
               else Inr (copy (CasNum (Point a 0)))) = Inr (CasNum (Point A 0))"
    by (simp add: cn_lt_def cn_gt_def zero_def copy_def neg_val A)
  have bcpy: "(if cn_lt (copy (CasNum (Point b 0))) zero then neg (copy (CasNum (Point b 0)))
               else Inr (copy (CasNum (Point b 0)))) = Inr (CasNum (Point B 0))"
    by (simp add: cn_lt_def cn_gt_def zero_def copy_def neg_val B)
  have nu: "mirror_point_on_x_axis unit origin = Inr (Point (- 1) 0)"
    using mirror_point_on_x_axis_val [of 1] by (simp add: unit_def)
  note i1 = circle_origin_y_axis [OF Apos]
  note i2 = circle_origin_x_axis [OF abnz]
  have c1: "Circle origin (Point A 0) = Inr (circle_of origin (Point A 0))"
    using Apos by (intro Circle_ok) simp
  have c2: "Circle origin (Point 0 (- (A / B))) = Inr (circle_of origin (Point 0 (- (A / B))))"
    using abnz by (intro Circle_ok) simp
  have i1': "intersect_with_line (circle_of origin (Point A 0)) (line_of (Point 0 (sqrt 3)) (Point 0 0))
             = Inr [Point 0 A, Point 0 (- A)]"
    using i1 unfolding c1 by simp
  have i2': "intersect_with_line (circle_of origin (Point 0 (- (A / B)))) (line_of origin unit)
             = Inr [Point (A / B) 0, Point (- (A / B)) 0]"
    using i2 ab unfolding c2 by simp
  have pos: "0 < A / B" using Apos Bpos by simp
  have sign: "andthen (if cn_lt (CasNum (Point a 0)) zero then neg (CasNum (Point (A / B) 0))
                       else Inr (CasNum (Point (A / B) 0)))
                (\<lambda>ret. andthen (if cn_lt (CasNum (Point b 0)) zero then neg ret else Inr ret) Inr)
              = Inr (CasNum (Point (a / b) 0))"
    by (simp add: cn_lt_def cn_gt_def zero_def neg_val A B abs_if)
  show ?thesis
    unfolding truediv_def y_axis_val x_axis_val acpy bcpy
    by (simp add: t1 nu c1 i1' Apos l1 par meet c2 i2' pos sign del: line_of_fields)
qed


section \<open>Multiplication and division of integers\<close>


lemma sqrt3_bounds: "sqrt 3 \<le> 9 / 5" "1 \<le> sqrt 3"
proof -
  have "sqrt 3 \<le> sqrt ((9 / 5)\<^sup>2)" by (intro real_sqrt_le_mono) (simp add: power2_eq_square)
  then show "sqrt 3 \<le> 9 / 5" by simp
  show "1 \<le> sqrt 3" by simp
qed

lemma tol_le: "tol \<le> 1 / 10 ^ 20" "tol * 10 ^ 20 = 1"
  by (simp_all add: tol_def)

text \<open>The conditions of \<open>mul_nonzero\<close> hold for integers with \<open>\<bar>a\<bar> \<le> 10\<^sup>1\<^sup>0\<close>.\<close>

lemma mul_conditions:
  fixes A B :: real
  assumes A: "1 \<le> A" "A \<le> 10 ^ 10" "A = 1 \<or> 2 \<le> A" and B: "1 \<le> B"
    and int: "B = A\<^sup>2 \<or> 1 \<le> \<bar>B - A\<^sup>2\<bar>"
    and lam: "lam = (A * B + A) / (A\<^sup>2 + 1)"
    and Fx: "Fx = B - lam * A"
    and h: "h = (if 0 = Fx then \<bar>- 1 - Fx\<bar> else \<bar>0 - Fx\<bar>)"
    and g: "g = lam * \<bar>A\<bar>"
  shows "tol \<le> 2 * lam"
    and "h \<le> lam * A \<or> (tol \<le> 2 * (h - lam * A) \<and> tol \<le> 4 * h)"
    and "h + lam * A \<le> 0 \<or> (tol \<le> 2 * (h + lam * A) \<and> tol \<le> 4 * h)"
    and "tol \<le> 2 * g"
    and "sqrt 3 * g / A + g \<le> 0 \<or> tol \<le> 2 * (sqrt 3 * g / A + g)"
    and "g \<le> sqrt 3 * g / A \<or> tol \<le> 2 * (g - sqrt 3 * g / A)"
proof -
  define N where "N = A\<^sup>2 + 1"
  have Npos: "0 < N" by (simp add: N_def add_nonneg_pos)
  have A2: "1 \<le> A\<^sup>2" using A(1) by (simp add: power2_eq_square mult_ge1_I)
  have "A\<^sup>2 \<le> (10 ^ 10)\<^sup>2" using A by (intro power_mono) simp_all
  then have Nle: "N \<le> 10 ^ 20 + 1" by (simp add: N_def)
  have tol1: "tol \<le> 1" by (simp add: tol_def)
  have tolN: "tol * N \<le> 2"
  proof -
    have "tol * N \<le> tol * (10 ^ 20 + 1)" using Nle by (intro mult_left_mono) (simp_all add: tol_def)
    also have "\<dots> = 1 + tol" by (simp add: tol_def)
    finally show ?thesis using tol1 by simp
  qed
  have lamN: "lam * N = A * (B + 1)"
  proof -
    have "lam = (A * (B + 1)) / N" by (simp add: lam N_def algebra_simps)
    then show ?thesis using Npos by simp
  qed
  have AB: "2 \<le> A * (B + 1)"
  proof -
    have "1 * 2 \<le> A * (B + 1)" using A(1) B by (intro mult_mono) simp_all
    then show ?thesis by simp
  qed
  have gA: "g = lam * A" using A(1) by (simp add: g)
  have gN: "g * N = A\<^sup>2 * (B + 1)" using lamN by (simp add: gA power2_eq_square algebra_simps)
  have "N \<le> A\<^sup>2 * (B + 1)"
  proof -
    have "A\<^sup>2 * 1 \<le> A\<^sup>2 * B" using B by (intro mult_left_mono) simp_all
    then show ?thesis using A2 by (simp add: N_def algebra_simps)
  qed
  then have "1 * N \<le> g * N" using gN by simp
  then have g1: "1 \<le> g" using Npos by (simp only: mult_le_cancel_right_pos)
  have FN: "Fx * N = B - A\<^sup>2"
  proof -
    have "Fx * N = B * N - (lam * N) * A" by (simp add: Fx algebra_simps)
    also have "\<dots> = B - A\<^sup>2" unfolding lamN by (simp add: N_def power2_eq_square algebra_simps)
    finally show ?thesis .
  qed
  have Fx0: "Fx = 0 \<longleftrightarrow> B = A\<^sup>2"
  proof
    assume "Fx = 0" with FN show "B = A\<^sup>2" by simp
  next
    assume "B = A\<^sup>2" with FN have "Fx * N = 0" by simp
    then show "Fx = 0" using Npos by simp
  qed
  have hnn: "0 \<le> h" by (simp add: h)
  have hN: "h * N = (if B = A\<^sup>2 then N else \<bar>B - A\<^sup>2\<bar>)"
  proof (cases "B = A\<^sup>2")
    case True
    then show ?thesis using Fx0 by (simp add: h)
  next
    case False
    then have "h = \<bar>Fx\<bar>" using Fx0 by (simp add: h)
    then have "h * N = \<bar>Fx * N\<bar>" using Npos by (simp add: abs_mult)
    then show ?thesis using False FN by simp
  qed
  show H0: "tol \<le> 2 * lam"
  proof -
    have "tol * N \<le> 2 * lam * N" using tolN AB lamN by simp
    then show ?thesis using Npos by (simp only: mult_le_cancel_right_pos)
  qed
  have hle: "h \<le> lam * A"
  proof -
    have "h * N \<le> g * N"
    proof (cases "B = A\<^sup>2")
      case True
      then show ?thesis using hN g1 Npos by simp
    next
      case False
      have "\<bar>B - A\<^sup>2\<bar> \<le> B + A\<^sup>2" using B A2 by simp
      also have "\<dots> \<le> A\<^sup>2 * B + A\<^sup>2"
      proof -
        have "1 * B \<le> A\<^sup>2 * B" using A2 B by (intro mult_right_mono) simp_all
        then show ?thesis by simp
      qed
      finally show ?thesis using False hN gN by (simp add: algebra_simps)
    qed
    then show ?thesis unfolding gA using Npos by (simp only: mult_le_cancel_right_pos)
  qed
  then show "h \<le> lam * A \<or> (tol \<le> 2 * (h - lam * A) \<and> tol \<le> 4 * h)" by simp
  have h4: "tol \<le> 4 * h"
  proof -
    have "1 \<le> h * N"
      using hN int Npos A2 by (cases "B = A\<^sup>2") (simp_all add: N_def)
    then have "tol * N \<le> 4 * h * N" using tolN by simp
    then show ?thesis using Npos by (simp only: mult_le_cancel_right_pos)
  qed
  have "tol \<le> 2 * (h + lam * A)" using hnn g1 tol1 by (simp add: gA)
  with h4 show "h + lam * A \<le> 0 \<or> (tol \<le> 2 * (h + lam * A) \<and> tol \<le> 4 * h)" by simp
  show "tol \<le> 2 * g" using g1 tol1 by simp
  have "0 \<le> sqrt 3 * g / A" using g1 A(1) by simp
  then have "tol \<le> 2 * (sqrt 3 * g / A + g)" using g1 tol1 by simp
  then show "sqrt 3 * g / A + g \<le> 0 \<or> tol \<le> 2 * (sqrt 3 * g / A + g)" by simp
  show "g \<le> sqrt 3 * g / A \<or> tol \<le> 2 * (g - sqrt 3 * g / A)"
  proof (cases "A = 1")
    case True
    have "1 * g \<le> sqrt 3 * g" using g1 by (intro mult_right_mono) simp_all
    then show ?thesis using True by simp
  next
    case False
    with A(3) have A2': "2 \<le> A" by simp
    have "sqrt 3 / A \<le> (9 / 5) / 2"
      using sqrt3_bounds A2' by (intro frac_le) simp_all
    then have "sqrt 3 / A \<le> 9 / 10" by simp
    then have "g * (sqrt 3 / A) \<le> g * (9 / 10)" using g1 by (intro mult_left_mono) simp_all
    moreover have "g * (sqrt 3 / A) = sqrt 3 * g / A" by simp
    ultimately have "sqrt 3 * g / A \<le> g * (9 / 10)" by (simp only:)
    then have "g - sqrt 3 * g / A \<ge> g / 10" by argo
    then have "2 * (g - sqrt 3 * g / A) \<ge> 1 / 5" using g1 by simp
    moreover have "tol \<le> 1 / 5" by (simp add: tol_def)
    ultimately show ?thesis by simp
  qed
qed


lemma mul_shortcuts:
  "mul (CasNum (Point a 0)) (CasNum (Point 1 0)) = Inr (CasNum (Point a 0))"
  "mul (CasNum (Point 1 0)) (CasNum (Point b 0)) = Inr (CasNum (Point b 0))"
  "b \<noteq> 1 \<Longrightarrow> mul (CasNum (Point 0 0)) (CasNum (Point b 0)) = Inr (CasNum (Point 0 0))"
  "a \<noteq> 1 \<Longrightarrow> mul (CasNum (Point a 0)) (CasNum (Point 0 0)) = Inr (CasNum (Point 0 0))"
  by (simp_all add: mul_def cn_isEqual_def isEqual_def one_def zero_def cn_lt_def cn_gt_def
      copy_def neg_val origin_def unit_def)

text \<open>Multiplication of integers is exact as long as the left factor is at most \<open>10\<^sup>1\<^sup>0\<close>
  in absolute value.\<close>

lemma mul_int:
  fixes a b :: int
  assumes bound: "\<bar>a\<bar> \<le> 10 ^ 10"
  shows "mul (iv a) (iv b) = Inr (iv (a * b))"
proof -
  consider "b = 1" | "a = 1" | "a = 0" "b \<noteq> 1" | "b = 0" "a \<noteq> 1"
    | "a \<noteq> 0" "a \<noteq> 1" "b \<noteq> 0" "b \<noteq> 1" by blast
  then show ?thesis
  proof cases
    case 1 then show ?thesis by (simp add: iv_def mul_shortcuts)
  next
    case 2 then show ?thesis by (simp add: iv_def mul_shortcuts)
  next
    case 3 then show ?thesis by (simp add: iv_def mul_shortcuts)
  next
    case 4 then show ?thesis by (simp add: iv_def mul_shortcuts)
  next
    case 5
    define A :: real where "A = \<bar>of_int a\<bar>"
    define B :: real where "B = \<bar>of_int b\<bar>"
    define lam where "lam = (A * B + A) / (A\<^sup>2 + 1)"
    define Fx where "Fx = B - lam * A"
    define h where "h = (if 0 = Fx then \<bar>- 1 - Fx\<bar> else \<bar>0 - Fx\<bar>)"
    define g where "g = lam * \<bar>A\<bar>"
    have Ai: "A = of_int \<bar>a\<bar>" and Bi: "B = of_int \<bar>b\<bar>" by (simp_all add: A_def B_def)
    have "1 \<le> \<bar>a\<bar>" using 5 by simp
    then have A1: "1 \<le> A" unfolding Ai by linarith
    have "1 \<le> \<bar>b\<bar>" using 5 by simp
    then have B1: "1 \<le> B" unfolding Bi by linarith
    have "(of_int \<bar>a\<bar> :: real) \<le> of_int (10 ^ 10)" using bound by (simp only: of_int_le_iff)
    then have A2: "A \<le> 10 ^ 10" unfolding Ai by simp
    have "\<bar>a\<bar> = 1 \<or> 2 \<le> \<bar>a\<bar>" using 5 by linarith
    then have A3: "A = 1 \<or> 2 \<le> A" unfolding Ai by (metis of_int_1 of_int_le_iff of_int_numeral)
    have BA: "B - A\<^sup>2 = of_int (\<bar>b\<bar> - \<bar>a\<bar>\<^sup>2)" unfolding Ai Bi by simp
    have "\<bar>b\<bar> = \<bar>a\<bar>\<^sup>2 \<or> 1 \<le> \<bar>\<bar>b\<bar> - \<bar>a\<bar>\<^sup>2\<bar>" by linarith
    then have int: "B = A\<^sup>2 \<or> 1 \<le> \<bar>B - A\<^sup>2\<bar>"
    proof
      assume "\<bar>b\<bar> = \<bar>a\<bar>\<^sup>2"
      then have "B = A\<^sup>2" unfolding Ai Bi by simp
      then show ?thesis ..
    next
      assume "1 \<le> \<bar>\<bar>b\<bar> - \<bar>a\<bar>\<^sup>2\<bar>"
      then have "(1::real) \<le> of_int \<bar>\<bar>b\<bar> - \<bar>a\<bar>\<^sup>2\<bar>" by linarith
      then have "1 \<le> \<bar>B - A\<^sup>2\<bar>" unfolding BA by simp
      then show ?thesis ..
    qed
    note H = mul_conditions [OF A1 A2 A3 B1 int lam_def Fx_def h_def g_def]
    have ne: "(of_int a :: real) \<noteq> 0" "(of_int a :: real) \<noteq> 1" "(of_int b :: real) \<noteq> 0" "(of_int b :: real) \<noteq> 1"
      using 5 by simp_all
    have "mul (CasNum (Point (of_int a) 0)) (CasNum (Point (of_int b) 0))
      = Inr (CasNum (Point (of_int a * of_int b) 0))"
      by (rule mul_nonzero [OF ne A_def B_def lam_def Fx_def h_def g_def H])
    then show ?thesis by (simp add: iv_def)
  qed
qed



lemma sqrt3_sq': "sqrt 3 * sqrt 3 = 3" by simp

text \<open>The conditions of \<open>truediv_nonzero\<close> hold for integers with \<open>a\<^sup>2 + b\<^sup>2 \<le> 10\<^sup>2\<^sup>0\<close>.\<close>

lemma truediv_conditions:
  fixes A B :: real
  assumes A: "1 \<le> A" and B: "1 \<le> B" "B = 1 \<or> 2 \<le> B"
    and bound: "A\<^sup>2 + B\<^sup>2 \<le> 10 ^ 20"
    and int1: "A\<^sup>2 = B \<or> 1 \<le> \<bar>A\<^sup>2 - B\<bar>"
    and int2: "B\<^sup>2 - A\<^sup>2 - 2 * A\<^sup>2 * B \<le> 0 \<or> 1 \<le> B\<^sup>2 - A\<^sup>2 - 2 * A\<^sup>2 * B"
    and int3: "A\<^sup>2 - 3 * B\<^sup>2 \<le> 0 \<or> 1 \<le> A\<^sup>2 - 3 * B\<^sup>2"
    and m: "m = - (A / B)"
    and lam: "lam = (A / B + A) / (m\<^sup>2 + 1)"
    and Fx: "Fx = - 1 - lam * m"
    and h: "h = (if 0 = Fx then \<bar>B - Fx\<bar> else \<bar>0 - Fx\<bar>)"
    and g: "g = lam * \<bar>m\<bar>"
  shows "tol \<le> 2 * lam"
    and "h \<le> lam * m \<or> (tol \<le> 2 * (h - lam * m) \<and> tol \<le> 4 * h)"
    and "h + lam * m \<le> 0 \<or> (tol \<le> 2 * (h + lam * m) \<and> tol \<le> 4 * h)"
    and "tol \<le> 2 * g"
    and "sqrt 3 * g / m + g \<le> 0 \<or> tol \<le> 2 * (sqrt 3 * g / m + g)"
    and "g \<le> sqrt 3 * g / m \<or> tol \<le> 2 * (g - sqrt 3 * g / m)"
proof -
  define N where "N = A\<^sup>2 + B\<^sup>2"
  have Apos: "0 < A" and Bpos: "0 < B" using A B by simp_all
  have Npos: "0 < N" using Apos Bpos by (simp add: N_def add_pos_pos)
  have A2: "1 \<le> A\<^sup>2" using A by (simp add: power2_eq_square mult_ge1_I)
  have tol0: "0 \<le> tol" and tol1: "tol \<le> 1" by (simp_all add: tol_def)
  have tolN: "tol * N \<le> 1"
  proof -
    have "tol * N \<le> tol * 10 ^ 20" using bound tol0 unfolding N_def by (intro mult_left_mono)
    then show ?thesis by (simp add: tol_def)
  qed
  have m2: "m\<^sup>2 + 1 = N / B\<^sup>2" using Bpos by (simp add: m N_def power_divide field_simps)
  have "lam = (A / B + A) * B\<^sup>2 / N" unfolding lam m2 by simp
  also have "(A / B + A) * B\<^sup>2 = A * B * (1 + B)" using Bpos by (simp add: power2_eq_square field_simps)
  finally have "lam = A * B * (1 + B) / N" .
  then have lamN: "lam * N = A * B * (1 + B)" using Npos by simp
  have absm: "\<bar>m\<bar> = A / B" using Apos Bpos by (simp add: m)
  have gm: "lam * m = - g" unfolding g absm by (simp add: m)
  have "g * N = (lam * N) * A / B" unfolding g absm by simp
  also have "\<dots> = A\<^sup>2 * (1 + B)" unfolding lamN using Bpos by (simp add: power2_eq_square)
  finally have gN: "g * N = A\<^sup>2 * (1 + B)" .
  have AB2: "2 \<le> A\<^sup>2 * (1 + B)"
  proof -
    have "1 * 2 \<le> A\<^sup>2 * (1 + B)" using A2 B by (intro mult_mono) simp_all
    then show ?thesis by simp
  qed
  have gpos: "0 < g"
  proof -
    have "0 < g * N" using gN AB2 by simp
    then show ?thesis using Npos by (simp add: zero_less_mult_iff)
  qed
  have Fg: "Fx = g - 1" by (simp add: Fx gm)
  have FN: "Fx * N = B * (A\<^sup>2 - B)"
  proof -
    have "Fx * N = g * N - N" by (simp add: Fg algebra_simps)
    also have "\<dots> = B * (A\<^sup>2 - B)" unfolding gN by (simp add: N_def power2_eq_square algebra_simps)
    finally show ?thesis .
  qed
  have Fx0: "Fx = 0 \<longleftrightarrow> A\<^sup>2 = B"
  proof
    assume "Fx = 0" with FN Bpos show "A\<^sup>2 = B" by simp
  next
    assume "A\<^sup>2 = B" with FN have "Fx * N = 0" by simp
    then show "Fx = 0" using Npos by simp
  qed
  have hnn: "0 \<le> h" by (simp add: h)
  have H3: "tol \<le> 2 * g"
  proof -
    have "tol * N \<le> 2 * g * N" using tolN AB2 gN by simp
    then show ?thesis using Npos by (simp only: mult_le_cancel_right_pos)
  qed
  show "tol \<le> 2 * lam"
  proof -
    have "1 * (1 * 2) \<le> A * (B * (1 + B))" using A B by (intro mult_mono) simp_all
    then have "tol * N \<le> 2 * lam * N" using tolN lamN by simp
    then show ?thesis using Npos by (simp only: mult_le_cancel_right_pos)
  qed
  have h4: "tol \<le> 4 * h"
  proof (cases "A\<^sup>2 = B")
    case True
    then have "h = B" using Fx0 Bpos by (simp add: h)
    then show ?thesis using B tol1 by simp
  next
    case False
    then have "h = \<bar>Fx\<bar>" using Fx0 by (simp add: h)
    then have "h * N = \<bar>Fx * N\<bar>" using Npos by (simp add: abs_mult)
    also have "\<dots> = B * \<bar>A\<^sup>2 - B\<bar>" unfolding FN using Bpos by (simp add: abs_mult)
    finally have hN: "h * N = B * \<bar>A\<^sup>2 - B\<bar>" .
    have "1 \<le> \<bar>A\<^sup>2 - B\<bar>" using False int1 by simp
    then have "1 * 1 \<le> B * \<bar>A\<^sup>2 - B\<bar>" using B by (intro mult_mono) simp_all
    then have "tol * N \<le> 4 * h * N" using tolN hN by simp
    then show ?thesis using Npos by (simp only: mult_le_cancel_right_pos)
  qed
  have "tol \<le> 2 * (h + g)" using H3 hnn by simp
  with h4 show "h \<le> lam * m \<or> (tol \<le> 2 * (h - lam * m) \<and> tol \<le> 4 * h)" by (simp add: gm)
  have "h - g \<le> 0 \<or> tol \<le> 2 * (h - g)"
  proof (cases "A\<^sup>2 = B")
    case True
    then have hB: "h = B" using Fx0 Bpos by (simp add: h)
    have g1: "g = 1" using True Fx0 Fg by simp
    show ?thesis using B(2) tol1 by (auto simp: hB g1)
  next
    case False
    then have hF: "h = \<bar>g - 1\<bar>" using Fx0 Fg by (simp add: h)
    show ?thesis
    proof (cases "1 / 2 \<le> g")
      case True
      then show ?thesis unfolding hF by argo
    next
      case False
      then have hg: "h - g = 1 - 2 * g" unfolding hF by argo
      have "(h - g) * N = N - 2 * (g * N)" unfolding hg by (simp add: algebra_simps)
      also have "\<dots> = B\<^sup>2 - A\<^sup>2 - 2 * A\<^sup>2 * B" unfolding gN by (simp add: N_def algebra_simps)
      finally have hgN: "(h - g) * N = B\<^sup>2 - A\<^sup>2 - 2 * A\<^sup>2 * B" .
      have "0 < h - g" using False hg by simp
      then have "0 < (h - g) * N" using Npos by simp
      then have "1 \<le> (h - g) * N" using int2 unfolding hgN by argo
      moreover have "2 * (h - g) * N = 2 * ((h - g) * N)" by simp
      ultimately have "tol * N \<le> 2 * (h - g) * N" using tolN by linarith
      then have "tol \<le> 2 * (h - g)" using Npos by (simp only: mult_le_cancel_right_pos)
      then show ?thesis ..
    qed
  qed
  with h4 show "h + lam * m \<le> 0 \<or> (tol \<le> 2 * (h + lam * m) \<and> tol \<le> 4 * h)"
    by (auto simp: gm)
  show "tol \<le> 2 * g" by (rule H3)
  have sm: "sqrt 3 * g / m = - (sqrt 3 * g * B / A)" using Apos Bpos by (simp add: m)
  show "sqrt 3 * g / m + g \<le> 0 \<or> tol \<le> 2 * (sqrt 3 * g / m + g)"
  proof (cases "A \<le> sqrt 3 * B")
    case True
    then have "g * A \<le> g * (sqrt 3 * B)" using gpos by (intro mult_left_mono) simp_all
    then have "g \<le> sqrt 3 * g * B / A" using Apos by (simp add: field_simps)
    then show ?thesis unfolding sm by simp
  next
    case False
    then have lt: "sqrt 3 * B < A" by simp
    define d where "d = A - sqrt 3 * B"
    have dpos: "0 < d" using lt by (simp add: d_def)
    have "d * (A + sqrt 3 * B) = A\<^sup>2 - (sqrt 3 * sqrt 3) * B\<^sup>2"
      by (simp add: d_def power2_eq_square algebra_simps)
    then have dd: "d * (A + sqrt 3 * B) = A\<^sup>2 - 3 * B\<^sup>2" by simp
    have "0 < d * (A + sqrt 3 * B)" using dpos Apos Bpos by (intro mult_pos_pos add_pos_pos) simp_all
    then have "1 \<le> d * (A + sqrt 3 * B)" using int3 unfolding dd by argo
    also have "\<dots> \<le> d * (A + 2 * B)"
    proof -
      have "sqrt 3 * B \<le> 2 * B" using sqrt3_bounds Bpos by (intro mult_right_mono) simp_all
      then show ?thesis using dpos by (intro mult_left_mono) simp_all
    qed
    finally have d1: "1 \<le> d * (A + 2 * B)" .
    have e: "sqrt 3 * g / m + g = g * d / A" unfolding sm d_def using Apos by (simp add: field_simps)
    have "A + 2 * B \<le> 2 * (A * (1 + B))"
    proof -
      have "1 * B \<le> A * B" using A Bpos by (intro mult_right_mono) simp_all
      then show ?thesis using Apos by (simp add: algebra_simps)
    qed
    then have "A * (A + 2 * B) \<le> A * (2 * (A * (1 + B)))" using Apos by (intro mult_left_mono) simp_all
    also have "\<dots> = 2 * (g * N)" unfolding gN by (simp add: power2_eq_square)
    finally have c: "A * (A + 2 * B) \<le> 2 * g * N" by simp
    have "tol * N * A \<le> 1 * A" using tolN Apos by (intro mult_right_mono) simp_all
    also have "\<dots> \<le> A * (d * (A + 2 * B))" using d1 Apos by simp
    also have "\<dots> = d * (A * (A + 2 * B))" by simp
    also have "\<dots> \<le> d * (2 * g * N)" using c dpos by (intro mult_left_mono) simp_all
    finally have "(tol * A) * N \<le> (2 * g * d) * N" by (simp add: algebra_simps)
    then have "tol * A \<le> 2 * g * d" using Npos by (simp only: mult_le_cancel_right_pos)
    then have "tol \<le> 2 * (g * d / A)" using Apos by (simp add: field_simps)
    then show ?thesis unfolding e ..
  qed
  have "0 \<le> sqrt 3 * g * B / A" using gpos Apos Bpos by simp
  then have "tol \<le> 2 * (g - sqrt 3 * g / m)" unfolding sm using H3 by simp
  then show "g \<le> sqrt 3 * g / m \<or> tol \<le> 2 * (g - sqrt 3 * g / m)" ..
qed


lemma truediv_zero_left:
  "b \<noteq> 0 \<Longrightarrow> truediv (CasNum (Point 0 0)) (CasNum (Point b 0)) = Inr (CasNum (Point 0 0))"
  by (simp add: truediv_def cn_isEqual_def isEqual_def zero_def cn_lt_def cn_gt_def cn_eq_def
      copy_def neg_val origin_def)

text \<open>Division of integers is exact as long as \<open>a\<^sup>2 + b\<^sup>2 \<le> 10\<^sup>2\<^sup>0\<close>.\<close>

lemma truediv_int:
  fixes a b :: int
  assumes b: "b \<noteq> 0" and bound: "a\<^sup>2 + b\<^sup>2 \<le> 10 ^ 20"
  shows "truediv (iv a) (iv b) = Inr (CasNum (Point (of_int a / of_int b) 0))"
proof (cases "a = 0")
  case True
  then show ?thesis using b by (simp add: iv_def truediv_zero_left)
next
  case False
  define A :: real where "A = \<bar>of_int a\<bar>"
  define B :: real where "B = \<bar>of_int b\<bar>"
  define m where "m = - (A / B)"
  define lam where "lam = (A / B + A) / (m\<^sup>2 + 1)"
  define Fx where "Fx = - 1 - lam * m"
  define h where "h = (if 0 = Fx then \<bar>B - Fx\<bar> else \<bar>0 - Fx\<bar>)"
  define g where "g = lam * \<bar>m\<bar>"
  have Ai: "A = of_int \<bar>a\<bar>" and Bi: "B = of_int \<bar>b\<bar>" by (simp_all add: A_def B_def)
  have "1 \<le> \<bar>a\<bar>" using False by simp
  then have A1: "1 \<le> A" unfolding Ai by linarith
  have "1 \<le> \<bar>b\<bar>" using b by simp
  then have B1: "1 \<le> B" unfolding Bi by linarith
  have "\<bar>b\<bar> = 1 \<or> 2 \<le> \<bar>b\<bar>" using b by linarith
  then have B2: "B = 1 \<or> 2 \<le> B" unfolding Bi by (metis of_int_1 of_int_le_iff of_int_numeral)
  have "(of_int (a\<^sup>2 + b\<^sup>2) :: real) \<le> of_int (10 ^ 20)" using bound by (simp only: of_int_le_iff)
  then have bd: "A\<^sup>2 + B\<^sup>2 \<le> 10 ^ 20" unfolding A_def B_def by simp
  have e1: "A\<^sup>2 - B = of_int (\<bar>a\<bar>\<^sup>2 - \<bar>b\<bar>)" unfolding Ai Bi by simp
  have "\<bar>a\<bar>\<^sup>2 = \<bar>b\<bar> \<or> 1 \<le> \<bar>\<bar>a\<bar>\<^sup>2 - \<bar>b\<bar>\<bar>" by linarith
  then have int1: "A\<^sup>2 = B \<or> 1 \<le> \<bar>A\<^sup>2 - B\<bar>"
  proof
    assume "\<bar>a\<bar>\<^sup>2 = \<bar>b\<bar>"
    then have "(of_int (\<bar>a\<bar>\<^sup>2) :: real) = of_int \<bar>b\<bar>" by (simp only:)
    then have "A\<^sup>2 = B" unfolding Ai Bi by simp
    then show ?thesis ..
  next
    assume "1 \<le> \<bar>\<bar>a\<bar>\<^sup>2 - \<bar>b\<bar>\<bar>"
    then have "(1::real) \<le> of_int \<bar>\<bar>a\<bar>\<^sup>2 - \<bar>b\<bar>\<bar>" by linarith
    then have "1 \<le> \<bar>A\<^sup>2 - B\<bar>" unfolding e1 by simp
    then show ?thesis ..
  qed
  define z2 where "z2 = \<bar>b\<bar>\<^sup>2 - \<bar>a\<bar>\<^sup>2 - 2 * \<bar>a\<bar>\<^sup>2 * \<bar>b\<bar>"
  have e2: "B\<^sup>2 - A\<^sup>2 - 2 * A\<^sup>2 * B = of_int z2" unfolding Ai Bi z2_def by simp
  have "z2 \<le> 0 \<or> 1 \<le> z2" by linarith
  then have int2: "B\<^sup>2 - A\<^sup>2 - 2 * A\<^sup>2 * B \<le> 0 \<or> 1 \<le> B\<^sup>2 - A\<^sup>2 - 2 * A\<^sup>2 * B"
    unfolding e2 by linarith
  define z3 where "z3 = \<bar>a\<bar>\<^sup>2 - 3 * \<bar>b\<bar>\<^sup>2"
  have e3: "A\<^sup>2 - 3 * B\<^sup>2 = of_int z3" unfolding Ai Bi z3_def by simp
  have "z3 \<le> 0 \<or> 1 \<le> z3" by linarith
  then have int3: "A\<^sup>2 - 3 * B\<^sup>2 \<le> 0 \<or> 1 \<le> A\<^sup>2 - 3 * B\<^sup>2"
    unfolding e3 by linarith
  note H = truediv_conditions [OF A1 B1 B2 bd int1 int2 int3 m_def lam_def Fx_def h_def g_def]
  have ne: "(of_int a :: real) \<noteq> 0" "(of_int b :: real) \<noteq> 0" using False b by simp_all
  show ?thesis unfolding iv_def
    by (rule truediv_nonzero [OF ne A_def B_def m_def lam_def Fx_def h_def g_def H])
qed




section \<open>Integers: the linear operations and the loops\<close>

lemma iv_simps [simp]:
  "add (iv a) (iv b) = Inr (iv (a + b))"
  "sub (iv a) (iv b) = Inr (iv (a - b))"
  "neg (iv a) = Inr (iv (- a))"
  "mul2 (iv a) = Inr (iv (2 * a))"
  "cn_abs (iv a) = Inr (iv \<bar>a\<bar>)"
  "copy (iv a) = iv a"
  by (simp_all add: iv_def add_val sub_val neg_val mul2_val cn_abs_val copy_def)

lemma iv_cmp [simp]:
  "cn_gt (iv a) (iv b) \<longleftrightarrow> b < a"
  "cn_lt (iv a) (iv b) \<longleftrightarrow> a < b"
  "cn_ge (iv a) (iv b) \<longleftrightarrow> b \<le> a"
  "cn_eq (iv a) (iv b) \<longleftrightarrow> a = b"
  "cn_isEqual (iv a) (iv b) \<longleftrightarrow> a = b"
  by (auto simp: iv_def cn_gt_def cn_lt_def cn_ge_def cn_eq_def cn_isEqual_def isEqual_def)

lemma iv_consts: "zero = iv 0" "one = iv 1" "CasNum unit = iv 1" "two = Inr (iv 2)"
  by (simp_all add: iv_def zero_def one_def origin_def unit_def two_val)

lemma iv_inject [simp]: "iv a = iv b \<longleftrightarrow> a = b"
  by (simp add: iv_def)

lemma get_n_loop_val:
  "get_n_loop (bin_rev n) (iv r) (iv c) = Inr (iv (r + c * int n))"
proof (induction n arbitrary: r c rule: bin_rev.induct)
  case (1 n)
  show ?case
  proof (cases "n < 2")
    case True
    then have "n = 0 \<or> n = 1" by auto
    then show ?thesis by (subst bin_rev.simps) auto
  next
    case False
    have n: "int n = 2 * int (n div 2) + int (n mod 2)" by presburger
    have "get_n_loop (bin_rev n) (iv r) (iv c)
        = get_n_loop (bin_rev (n div 2)) (iv (r + c * int (n mod 2))) (iv (2 * c))"
      using False by (subst bin_rev.simps) (auto simp: mod2_eq_if)
    also have "\<dots> = Inr (iv (r + c * int (n mod 2) + 2 * c * int (n div 2)))"
      using False by (simp only: 1 not_False_eq_True)
    also have "r + c * int (n mod 2) + 2 * c * int (n div 2) = r + c * int n"
    proof -
      have "c * int n = c * (2 * int (n div 2) + int (n mod 2))" using n by (simp only:)
      then show ?thesis by (simp only: algebra_simps)
    qed
    finally show ?thesis .
  qed
qed

lemma get_n_val: "get_n n = Inr (iv n)"
  using get_n_loop_val [of "nat \<bar>n\<bar>" 0 1]
  by (auto simp: get_n_def iv_consts)

lemma cn_val: "cn n = Inr (iv n)"
  by (simp add: cn_def get_n_val) (simp add: iv_def)


text \<open>
  \<open>double_until_gt\<close> returns: from a positive \<open>y\<close> it reaches the first \<open>2\<^sup>k * y\<close> that is
  not below \<open>x\<close>.
\<close>

lemma double_until_gt_loop_val:
  assumes "0 < y"
  shows "\<exists>k. double_until_gt_loop (iv x) True (iv y) = Some (Inr (iv (2 ^ k * y)))
           \<and> x \<le> 2 ^ k * y \<and> (k = 0 \<or> 2 ^ k * y < 2 * x)"
  using assms
proof (induction "nat (x - y)" arbitrary: y rule: less_induct)
  case less
  show ?case
  proof (cases "y < x")
    case False
    then have "double_until_gt_loop (iv x) True (iv y) = Some (Inr (iv (2 ^ 0 * y)))"
      by (subst double_until_gt_loop.simps) simp
    moreover have "x \<le> 2 ^ 0 * y" using False by simp
    ultimately show ?thesis by blast
  next
    case True
    have "nat (x - 2 * y) < nat (x - y)" using True less.prems by linarith
    moreover have "0 < 2 * y" using less.prems by simp
    ultimately obtain k where k:
      "double_until_gt_loop (iv x) True (iv (2 * y)) = Some (Inr (iv (2 ^ k * (2 * y))))"
      "x \<le> 2 ^ k * (2 * y)" "k = 0 \<or> 2 ^ k * (2 * y) < 2 * x"
      using less.hyps [of "2 * y"] by blast
    have "double_until_gt_loop (iv x) True (iv y) = Some (Inr (iv (2 ^ Suc k * y)))"
      using True k(1) by (subst double_until_gt_loop.simps) (simp add: mult.assoc mult.left_commute)
    moreover have "x \<le> 2 ^ Suc k * y" using k(2) by (simp add: mult.assoc mult.left_commute)
    moreover have "2 ^ Suc k * y < 2 * x"
      using k(3) True by (auto simp: mult.assoc mult.left_commute)
    ultimately show ?thesis by blast
  qed
qed

text \<open>
  The loop of \<open>__mod__\<close> returns: every round strictly decreases \<open>\<bar>remainder\<bar>\<close> and changes
  the remainder by a multiple of \<open>\<bar>b\<bar>\<close>.
\<close>

lemma mod_loop_val:
  assumes "0 < B"
  shows "\<exists>r'. mod_loop (iv B) (iv r) = Some (Inr (iv r')) \<and> \<bar>r'\<bar> < B \<and> B dvd (r' - r)"
proof (induction "nat \<bar>r\<bar>" arbitrary: r rule: less_induct)
  case less
  show ?case
  proof (cases "B \<le> \<bar>r\<bar>")
    case False
    then have "mod_loop (iv B) (iv r) = Some (Inr (iv r))"
      by (subst mod_loop.simps) simp
    then show ?thesis using False by auto
  next
    case True
    obtain k where k:
      "double_until_gt_loop (iv \<bar>r\<bar>) True (iv B) = Some (Inr (iv (2 ^ k * B)))"
      "\<bar>r\<bar> \<le> 2 ^ k * B" "k = 0 \<or> 2 ^ k * B < 2 * \<bar>r\<bar>"
      using double_until_gt_loop_val [OF assms, of "\<bar>r\<bar>"] by blast
    define T where "T = 2 ^ k * B"
    define r1 where "r1 = (if 0 < r then r - T else r + T)"
    have step: "mod_step (iv B) (iv r) = Some (Inr (iv r1))"
      using k(1) by (simp add: mod_step_def obind_def double_until_gt_def iv_consts T_def r1_def)
    have "k = 0 \<Longrightarrow> \<bar>r\<bar> = B" using True k(2) by simp
    then have dec: "\<bar>r1\<bar> < \<bar>r\<bar>"
      using k(2,3) True assms unfolding r1_def T_def [symmetric] by (cases "k = 0") (auto simp: T_def)
    have dvd: "B dvd (r1 - r)" by (simp add: r1_def T_def)
    have "nat \<bar>r1\<bar> < nat \<bar>r\<bar>" using dec by linarith
    then obtain r' where r': "mod_loop (iv B) (iv r1) = Some (Inr (iv r'))" "\<bar>r'\<bar> < B" "B dvd (r' - r1)"
      using less [of r1] by blast
    have "mod_loop (iv B) (iv r) = Some (Inr (iv r'))"
      using True step r'(1) by (subst mod_loop.simps) simp
    moreover have "B dvd (r' - r)"
      using dvd_add [OF r'(3) dvd] by simp
    ultimately show ?thesis using r'(2) by blast
  qed
qed

text \<open>\<open>__mod__\<close> on integers returns, and returns Python's \<open>a % b\<close>.\<close>

lemma cn_mod_int:
  assumes "b \<noteq> 0"
  shows "cn_mod (iv a) (iv b) = Some (Inr (iv (a mod b)))"
proof -
  have B: "0 < \<bar>b\<bar>" using assms by simp
  obtain r where r: "mod_loop (iv \<bar>b\<bar>) (iv a) = Some (Inr (iv r))" "\<bar>r\<bar> < \<bar>b\<bar>" "\<bar>b\<bar> dvd (r - a)"
    using mod_loop_val [OF B, of a] by blast
  define v where "v = (if b < 0 \<and> 0 < r then r - \<bar>b\<bar> else if 0 < b \<and> r < 0 then r + \<bar>b\<bar> else r)"
  have val: "cn_mod (iv a) (iv b) = Some (Inr (iv v))"
    using assms r(1) by (simp add: cn_mod_def obind_def iv_consts v_def)
  have "b dvd (r - a)" using r(3) by simp
  moreover have "b dvd (r - a) + b" "b dvd (r - a) - \<bar>b\<bar>" using \<open>b dvd (r - a)\<close> by simp_all
  moreover have "r + b - a = (r - a) + b" "r - \<bar>b\<bar> - a = (r - a) - \<bar>b\<bar>" by simp_all
  ultimately have "b dvd (v - a)" unfolding v_def by (auto simp only: abs_of_pos split: if_splits)
  then have "(v - a) mod b = 0" by simp
  then have eq: "v mod b = a mod b" by (metis mod_eq_dvd_iff dvd_eq_mod_eq_0)
  have "v mod b = v"
  proof (cases "0 < b")
    case True
    then have "0 \<le> v" "v < b" using r(2) by (auto simp: v_def)
    then show ?thesis by simp
  next
    case False
    then have "b < 0" using assms by simp
    then have "v \<le> 0" "b < v" using r(2) by (auto simp: v_def)
    then show ?thesis by (simp add: mod_neg_neg_trivial)
  qed
  then show ?thesis using val eq by simp
qed




section \<open>The square root\<close>

lemma iwl_vertical_tangent:
  assumes "u \<noteq> v" "center c = Point cx cy" "\<bar>cx - x0\<bar> = radius c"
  shows "intersect_with_line c (line_of (Point x0 u) (Point x0 v)) = Inr [Point x0 cy]"
proof -
  define l where "l = line_of (Point x0 u) (Point x0 v)"
  have "lC l = - x0 * lA l" by (simp add: l_def algebra_simps)
  moreover have A: "lA l \<noteq> 0" using assms(1) by (simp add: l_def)
  ultimately have q: "- lC l / lA l = x0" and q': "lC l / lA l = - x0" by simp_all
  have B: "lB l = 0" by (simp add: l_def)
  have "dist_from_point l (center c) = \<bar>lA l * px (center c) + lC l\<bar> / \<bar>lA l\<bar>"
    using B by (simp add: dist_from_point_def)
  also have "\<dots> = \<bar>px (center c) + lC l / lA l\<bar>"
    using A by (simp add: field_simps flip: abs_divide)
  finally have d: "dist_from_point l (center c) = radius c"
    using assms(2,3) by (simp add: q')
  show ?thesis
    unfolding l_def [symmetric] intersect_with_line_def Let_def d using A B q assms(2) by simp
qed

text \<open>
  The geometric-mean construction on a positive abscissa, given that halving \<open>a + 1\<close>
  is exact and that \<open>(a - 1) / 2\<close> is 0 or at least the tolerance.
\<close>

lemma cn_sqrt_pos:
  assumes a: "0 < a"
    and tr: "truediv (CasNum (Point (a + 1) 0)) (CasNum (Point 2 0)) = Inr (CasNum (Point ((a + 1) / 2) 0))"
    and q: "q = (a + 1) / 2 - 1" and r: "r = (if q = 0 then 1 else \<bar>q\<bar>)" and t: "tol \<le> r"
  shows "cn_sqrt (CasNum (Point a 0)) = Inr (CasNum (Point (sqrt a) 0))"
proof -
  define p where "p = (a + 1) / 2"
  have ppos: "0 < p" using a by (simp add: p_def)
  have rpos: "0 < r" using less_le_trans [OF tol_pos t] .
  have s1: "\<not> cn_lt (CasNum (Point a 0)) zero"
    using a by (simp add: cn_lt_def cn_gt_def zero_def)
  have s2: "add (CasNum (Point a 0)) one = Inr (CasNum (Point (a + 1) 0))"
    by (simp add: one_def unit_def add_val)
  have s3: "sub (CasNum (Point p 0)) one = Inr (CasNum (Point q 0))"
    by (simp add: one_def unit_def sub_val q p_def)
  define c where "c = circle_of origin (Point p 0)"
  have s4: "Circle origin (Point p 0) = Inr c"
    using ppos by (simp add: c_def Circle_ok)
  have cen: "center c = Point 0 0" and rad: "radius c = p"
    using ppos by (simp_all add: c_def origin_def)
  have s5: "get_perpendicular_to_line_through_point (Point q 0) (line_of origin unit)
      = Inr (line_of (Point q (r * sqrt 3)) (Point q 0))"
    by (rule perpendicular_on_x_axis [OF r t])
  have "q = p - 1" by (simp add: q p_def)
  moreover have "1 < 2 * p" using a by (simp add: p_def)
  ultimately have "\<bar>0 - q\<bar> < p" by argo
  then have qp: "\<bar>0 - q\<bar> < radius c" unfolding rad .
  have "r * sqrt 3 \<noteq> 0" using rpos by simp
  from iwl_vertical_line_of [OF this cen qp]
  have s6: "intersect_with_line c (line_of (Point q (r * sqrt 3)) (Point q 0))
      = Inr [Point q (sqrt (p\<^sup>2 - q\<^sup>2)), Point q (- sqrt (p\<^sup>2 - q\<^sup>2))]"
    by (simp add: rad)
  have "p\<^sup>2 - q\<^sup>2 = a" by (simp add: q p_def power2_eq_square field_simps)
  then have s6': "intersect_with_line c (line_of (Point q (r * sqrt 3)) (Point q 0))
      = Inr [Point q (sqrt a), Point q (- sqrt a)]"
    using s6 by simp
  have sa: "0 < sqrt a" using a by simp
  define c' where "c' = circle_of (Point q 0) (Point q (sqrt a))"
  have s7: "Circle (Point q 0) (Point q (sqrt a)) = Inr c'"
    using sa by (simp add: c'_def Circle_ok)
  have cen': "py (center c') = 0" "px (center c') = q" and rad': "radius c' = sqrt a"
    using sa by (simp_all add: c'_def)
  have "intersect_with_line c' (line_of (Point 0 0) (Point 1 0))
      = Inr [Point (px (center c') + radius c') 0, Point (px (center c') - radius c') 0]"
    using a by (intro iwl_on_x_axis) (simp_all add: cen' rad')
  then have s8: "intersect_with_line c' (line_of origin unit)
      = Inr [Point (q + sqrt a) 0, Point (q - sqrt a) 0]"
    by (simp add: cen' rad' origin_def unit_def)
  have s9: "sub (CasNum (Point (q + sqrt a) 0)) (CasNum (Point q 0)) = Inr (CasNum (Point (sqrt a) 0))"
    by (simp add: sub_val)
  show ?thesis
    unfolding cn_sqrt_def
    using sa by (simp add: s1 s2 two_val tr [folded p_def] s3 s4 x_axis_val s5 s6' s7 s8 s9
        del: line_of_fields)
qed

lemma cn_sqrt_zero: "cn_sqrt zero = Inl ValueError"
proof -
  have s1: "\<not> cn_lt zero zero" by (simp add: cn_lt_def cn_gt_def)
  have s2: "add zero one = Inr (iv 1)"
    using add_val [of 0 1] by (simp add: zero_def one_def origin_def unit_def iv_def)
  have "truediv (iv 1) (iv 2) = Inr (CasNum (Point (of_int 1 / of_int 2) 0))"
    by (rule truediv_int) simp_all
  then have s3: "truediv (CasNum (Point 1 0)) (CasNum (Point 2 0)) = Inr (CasNum (Point (1 / 2) 0))"
    by (simp add: iv_def)
  have s4: "sub (CasNum (Point (1 / 2) 0)) one = Inr (CasNum (Point (- (1 / 2)) 0))"
    using sub_val [of "1 / 2" 1] by (simp add: one_def unit_def)
  define c where "c = circle_of origin (Point (1 / 2) 0)"
  have s5: "Circle origin (Point (1 / 2) 0) = Inr c"
    by (simp add: c_def Circle_ok)
  have cen: "center c = Point 0 0" and rad: "radius c = 1 / 2"
    by (simp_all add: c_def origin_def)
  have "tol \<le> 1 / 2" by (simp add: tol_def)
  then have s6: "get_perpendicular_to_line_through_point (Point (- (1 / 2)) 0) (line_of origin unit)
      = Inr (line_of (Point (- (1 / 2)) (1 / 2 * sqrt 3)) (Point (- (1 / 2)) 0))"
    by (intro perpendicular_on_x_axis) simp_all
  have "intersect_with_line c (line_of (Point (- (1 / 2)) (1 / 2 * sqrt 3)) (Point (- (1 / 2)) 0))
      = Inr [Point (- (1 / 2)) 0]"
    by (rule iwl_vertical_tangent [OF _ cen]) (simp_all add: rad)
  then show ?thesis
    unfolding cn_sqrt_def
    by (simp add: s1 s2 two_val s3 iv_def s4 s5 x_axis_val s6
        del: line_of_fields)
qed


text \<open>The square root of a positive integer, as long as halving \<open>a + 1\<close> is exact.\<close>

lemma cn_sqrt_int:
  fixes a :: int
  assumes a: "1 \<le> a" and bound: "(a + 1)\<^sup>2 + 4 \<le> 10 ^ 20"
  shows "cn_sqrt (iv a) = Inr (CasNum (Point (sqrt (of_int a)) 0))"
proof -
  define q :: real where "q = (of_int a + 1) / 2 - 1"
  define r :: real where "r = (if q = 0 then 1 else \<bar>q\<bar>)"
  have pos: "0 < (of_int a :: real)" using a by simp
  have "truediv (iv (a + 1)) (iv 2) = Inr (CasNum (Point (of_int (a + 1) / of_int 2) 0))"
    using bound by (intro truediv_int) simp_all
  then have tr: "truediv (CasNum (Point (of_int a + 1) 0)) (CasNum (Point 2 0))
      = Inr (CasNum (Point ((of_int a + 1) / 2) 0))"
    by (simp add: iv_def)
  have "a = 1 \<or> 2 \<le> a" using a by linarith
  then have "(of_int a :: real) = 1 \<or> 2 \<le> (of_int a :: real)"
    by (metis of_int_1 of_int_le_iff of_int_numeral)
  then have "q = 0 \<or> 1 / 2 \<le> q" unfolding q_def by argo
  then have "1 / 2 \<le> r" unfolding r_def by auto
  moreover have "tol \<le> 1 / 2" by (simp add: tol_def)
  ultimately have t: "tol \<le> r" by simp
  show ?thesis unfolding iv_def by (rule cn_sqrt_pos [OF pos tr q_def r_def t])
qed

lemma cn_sqrt_square:
  fixes k :: int
  assumes k: "1 \<le> k" "k < 10 ^ 5"
  shows "cn_sqrt (iv (k\<^sup>2)) = Inr (iv k)"
proof -
  have "1 * 1 \<le> k * k" using k(1) by (intro mult_mono) simp_all
  then have k1: "1 \<le> k\<^sup>2" by (simp add: power2_eq_square)
  have "k \<le> 99999" using k(2) by simp
  then have "k\<^sup>2 \<le> 99999\<^sup>2" using k(1) by (intro power_mono) simp_all
  then have "k\<^sup>2 + 1 \<le> 10 ^ 10 - 1" by simp
  then have "(k\<^sup>2 + 1)\<^sup>2 \<le> (10 ^ 10 - 1)\<^sup>2" using k1 by (intro power_mono) simp_all
  then have bound: "(k\<^sup>2 + 1)\<^sup>2 + 4 \<le> 10 ^ 20" by simp
  have "sqrt (of_int (k\<^sup>2)) = of_int k" using k(1) by simp
  then show ?thesis using cn_sqrt_int [OF k1 bound] by (simp add: iv_def)
qed


lemma sqrt_zero_tangent:
  "andthen (Circle origin (Point (1 / 2) 0)) (\<lambda>c.
   andthen (get_perpendicular_to_line_through_point (Point (- (1 / 2)) 0) (line_of origin unit)) (\<lambda>l.
     intersect_with_line c l)) = Inr [Point (- (1 / 2)) 0]"
proof -
  define c where "c = circle_of origin (Point (1 / 2) 0)"
  have s5: "Circle origin (Point (1 / 2) 0) = Inr c"
    by (simp add: c_def Circle_ok)
  have cen: "center c = Point 0 0" and rad: "radius c = 1 / 2"
    by (simp_all add: c_def origin_def)
  have "tol \<le> 1 / 2" by (simp add: tol_def)
  then have s6: "get_perpendicular_to_line_through_point (Point (- (1 / 2)) 0) (line_of origin unit)
      = Inr (line_of (Point (- (1 / 2)) (1 / 2 * sqrt 3)) (Point (- (1 / 2)) 0))"
    by (intro perpendicular_on_x_axis) simp_all
  have "intersect_with_line c (line_of (Point (- (1 / 2)) (1 / 2 * sqrt 3)) (Point (- (1 / 2)) 0))
      = Inr [Point (- (1 / 2)) 0]"
    by (rule iwl_vertical_tangent [OF _ cen]) (simp_all add: rad)
  then show ?thesis by (simp add: s5 s6 del: line_of_fields)
qed


section \<open>Shifts and modular exponentiation\<close>

lemma half_val:
  assumes "a = 0 \<or> tol \<le> \<bar>a\<bar>"
  shows "half (CasNum (Point a 0)) = Inr (CasNum (Point (a / 2) 0))"
proof (cases "a = 0")
  case True
  then show ?thesis by (simp add: half_def half_point_on_x_axis_def isEqual_def origin_def)
next
  case False
  with assms have t: "tol \<le> \<bar>0 - a\<bar>" by simp
  define l where "l = line_of (Point 0 0) (Point a 0)"
  have L: "Line origin (Point a 0) = Inr l"
    using False by (simp add: l_def origin_def Line_ok)
  have P: "lp1 l = Point 0 0" and Q: "lp2 l = Point a 0" by (simp_all add: l_def)
  define w where "w = \<bar>a\<bar> * sqrt 3 / 2"
  have wpos: "0 < w" using False by (simp add: w_def)
  have b: "get_perpendicular_bisector l = Inr (line_of (Point (a / 2) w) (Point (a / 2) (- w)))"
    using bisector_horizontal [OF P Q t] by (simp add: w_def)
  have lf: "lA l = 0" "lB l = a" "lC l = 0" by (simp_all add: l_def)
  have bf: "lA (line_of (Point (a / 2) w) (Point (a / 2) (- w))) = 2 * w"
    "lB (line_of (Point (a / 2) w) (Point (a / 2) (- w))) = 0"
    "lC (line_of (Point (a / 2) w) (Point (a / 2) (- w))) = - (a * w)"
    by (simp_all add: algebra_simps)
  have d: "a * (2 * w) \<noteq> 0" using False wpos by simp
  have "inverse (- (a * (2 * w))) * (a * - (a * w)) = a / 2"
    using False wpos by (simp add: field_simps)
  then have i: "line_intersect l (line_of (Point (a / 2) w) (Point (a / 2) (- w))) = Inr (Point (a / 2) 0)"
    unfolding line_intersect_def line_get_intersection_def Let_def lf bf using d by simp
  show ?thesis
    using False
    by (simp add: half_def half_point_on_x_axis_def isEqual_def L get_midpoint_def b i
        del: line_of_fields)
qed

lemma half_int: "half (iv (2 * a)) = Inr (iv a)"
proof -
  have "(of_int (2 * a) :: real) = 0 \<or> tol \<le> \<bar>of_int (2 * a)\<bar>"
  proof (cases "a = 0")
    case False
    then have "1 \<le> \<bar>a\<bar>" by simp
    then have "(1::real) \<le> \<bar>of_int a\<bar>" by (metis of_int_1 of_int_le_iff of_int_abs)
    moreover have "tol \<le> 1" by (simp add: tol_def)
    moreover have "\<bar>of_int (2 * a) :: real\<bar> = 2 * \<bar>of_int a\<bar>" by simp
    ultimately have "tol \<le> \<bar>of_int (2 * a) :: real\<bar>" by linarith
    then show ?thesis ..
  qed simp
  from half_val [OF this] show ?thesis by (simp add: iv_def)
qed

text \<open>\<open>__rshift__\<close> on integers returns \<open>a >> i\<close>, the floor of \<open>a / 2\<^sup>i\<close>.\<close>

lemma rshift_loop_int: "rshift_loop i (iv 2) (iv a) = Some (Inr (iv (a div 2 ^ i)))"
proof (induction i arbitrary: a)
  case 0
  show ?case by simp
next
  case (Suc i)
  have m: "cn_mod (iv a) (iv 2) = Some (Inr (iv (a mod 2)))" by (rule cn_mod_int) simp
  have e: "a div 2 ^ Suc i = (a div 2) div 2 ^ i" by (simp add: zdiv_zmult2_eq)
  show ?case
  proof (cases "a mod 2 = 0")
    case True
    then have "a = 2 * (a div 2)" by presburger
    then have "half (iv a) = Inr (iv (a div 2))" using half_int [of "a div 2"] by simp
    then show ?thesis using True by (simp add: m obind_def iv_consts Suc e del: power_Suc)
  next
    case False
    then have "a - 1 = 2 * (a div 2)" by presburger
    then have "half (iv (a - 1)) = Inr (iv (a div 2))" using half_int [of "a div 2"] by simp
    then show ?thesis using False by (simp add: m obind_def iv_consts Suc e del: power_Suc)
  qed
qed

lemma rshift_int: "rshift (iv a) i = Some (Inr (iv (a div 2 ^ nat i)))"
  by (simp add: rshift_def obind_def get_n_val rshift_loop_int)



text \<open>\<open>pow_mod\<close> at base 2, exponent 1, modulus 2: the result 2 is not reduced.\<close>

lemma pow_mod_2_1_2: "pow_mod (iv 2) (iv 1) (iv 2) = Some (Inr (iv 2))"
proof -
  have m1: "cn_mod (iv 1) (iv 2) = Some (Inr (iv 1))"
    using cn_mod_int [of 2 1] by simp
  have r1: "mul (iv 1) (iv 2) = Inr (iv 2)" using mul_int [of 1 2] by simp
  have b1: "mul (iv 2) (iv 2) = Inr (iv 4)" using mul_int [of 2 2] by simp
  have m2: "cn_mod (iv 4) (iv 2) = Some (Inr (iv 0))"
    using cn_mod_int [of 2 4] by simp
  have s1: "rshift (iv 1) 1 = Some (Inr (iv 0))" using rshift_int [of 1 1] by simp
  have step: "pow_mod_step (iv 2) (iv 2) (iv 1, iv 2, iv 1) = Some (Inr (iv 2, iv 0, iv 0))"
    by (simp add: pow_mod_step_def obind_def m1 iv_consts r1 b1 m2 s1)
  have "pow_mod_loop (iv 2) (iv 2) (iv 2, iv 0, iv 0) = Some (Inr (iv 2))"
    by (subst pow_mod_loop.simps) (simp add: iv_consts)
  then have "pow_mod_loop (iv 2) (iv 2) (iv 1, iv 2, iv 1) = Some (Inr (iv 2))"
    by (subst pow_mod_loop.simps) (simp add: iv_consts step)
  then show ?thesis by (simp add: pow_mod_def obind_def iv_consts)
qed



section \<open>Results on the x-axis\<close>

lemma on_x_axis_iff: "on_x_axis c \<longleftrightarrow> (\<exists>x. c = CasNum (Point x 0))"
proof
  assume "on_x_axis c"
  then have "c = CasNum (Point (px (pnt c)) 0)"
    by (cases c, cases "pnt c") (simp add: on_x_axis_def)
  then show "\<exists>x. c = CasNum (Point x 0)" ..
qed (auto simp: on_x_axis_def)

lemma roa_simps [simp]:
  "returns_on_axis (Inl e)" "returns_on_axis (Inr c) = on_x_axis c"
  "yields_on_axis None" "yields_on_axis (Some v) = returns_on_axis v"
  by (simp_all add: returns_on_axis_def yields_on_axis_def)

lemma on_x_axis_simps [simp]:
  "on_x_axis (CasNum (Point x 0))" "on_x_axis (iv a)" "on_x_axis zero" "on_x_axis one"
  "on_x_axis (copy c) = on_x_axis c" "on_x_axis (CasNum p) = (py p = 0)"
  by (simp_all add: on_x_axis_def iv_def zero_def one_def copy_def)






lemma roa_add: "on_x_axis a \<Longrightarrow> on_x_axis b \<Longrightarrow> returns_on_axis (add a b)"
  by (auto simp: on_x_axis_iff add_val)

lemma roa_sub: "on_x_axis a \<Longrightarrow> on_x_axis b \<Longrightarrow> returns_on_axis (sub a b)"
  by (auto simp: on_x_axis_iff sub_val)

lemma roa_mul2: "on_x_axis a \<Longrightarrow> returns_on_axis (mul2 a)"
  by (auto simp: on_x_axis_iff mul2_val)

lemma roa_cn_abs: "on_x_axis a \<Longrightarrow> returns_on_axis (cn_abs a)"
  by (auto simp: on_x_axis_iff cn_abs_val)








lemma sub_Inr_axis: "on_x_axis a \<Longrightarrow> on_x_axis b \<Longrightarrow> sub a b = Inr p \<Longrightarrow> on_x_axis p"
  using roa_sub [of a b] by simp

lemma add_Inr_axis: "on_x_axis a \<Longrightarrow> on_x_axis b \<Longrightarrow> add a b = Inr p \<Longrightarrow> on_x_axis p"
  using roa_add [of a b] by simp

lemma mul2_Inr_axis: "on_x_axis a \<Longrightarrow> mul2 a = Inr p \<Longrightarrow> on_x_axis p"
  using roa_mul2 [of a] by simp

lemma cn_abs_Inr_axis: "on_x_axis a \<Longrightarrow> cn_abs a = Inr p \<Longrightarrow> on_x_axis p"
  using roa_cn_abs [of a] by simp



text \<open>The loops: whatever they return lies on the x-axis.\<close>

lemma double_until_gt_loop_axis:
  assumes "double_until_gt_loop a strict t = Some y"
  shows "on_x_axis t \<longrightarrow> returns_on_axis y"
proof (rule double_until_gt_loop.raw_induct
    [where P = "\<lambda>a strict t y. on_x_axis t \<longrightarrow> returns_on_axis y", OF _ assms])
  fix f a strict t y
  assume IH: "\<And>a strict t y. f a strict t = Some y \<Longrightarrow> on_x_axis t \<longrightarrow> returns_on_axis y"
    and eq: "(if cn_gt a t \<or> \<not> strict \<and> cn_eq a t
              then case mul2 t of Inl e \<Rightarrow> Some (Inl e) | Inr t' \<Rightarrow> f a strict t'
              else Some (Inr t)) = Some y"
  show "on_x_axis t \<longrightarrow> returns_on_axis y"
  proof
    assume t: "on_x_axis t"
    show "returns_on_axis y"
    proof (cases "cn_gt a t \<or> \<not> strict \<and> cn_eq a t")
      case True
      show ?thesis
      proof (cases "mul2 t")
        case (Inl e)
        have "Some (Inl e) = Some y" using eq unfolding if_P [OF True] Inl by simp
        then have "y = Inl e" by simp
        then show ?thesis by simp
      next
        case (Inr t')
        have "f a strict t' = Some y" using eq unfolding if_P [OF True] Inr by simp
        moreover have "on_x_axis t'" using t Inr by (rule mul2_Inr_axis)
        ultimately show ?thesis using IH by blast
      qed
    next
      case False
      have "Some (Inr t) = Some y" using eq unfolding if_not_P [OF False] .
      then have "y = Inr t" by simp
      then show ?thesis using t by simp
    qed
  qed
qed

lemma double_until_gt_axis:
  "double_until_gt a b strict = Some (Inr r) \<Longrightarrow> on_x_axis b \<Longrightarrow> on_x_axis r"
  using double_until_gt_loop_axis [of a strict "copy b" "Inr r"] by (simp add: double_until_gt_def)

lemma mod_step_axis:
  assumes "mod_step abs_b r = Some (Inr r')" "on_x_axis abs_b" "on_x_axis r"
  shows "on_x_axis r'"
proof -
  obtain ar where ar: "cn_abs r = Inr ar" using assms(1)
    by (cases "cn_abs r") (simp_all add: mod_step_def obind_def)
  obtain t where t: "double_until_gt ar abs_b True = Some (Inr t)"
    "(if cn_gt r zero then sub r t else add r t) = Inr r'"
    using assms(1) unfolding mod_step_def obind_def ar
    by (auto split: option.splits sum.splits if_splits)
  have "on_x_axis t" using double_until_gt_axis [OF t(1)] assms(2) by simp
  then show ?thesis using t(2) assms(3) roa_sub [of r t] roa_add [of r t]
    by (auto split: if_splits)
qed

lemma mod_loop_axis:
  assumes "mod_loop abs_b r = Some y"
  shows "on_x_axis abs_b \<longrightarrow> on_x_axis r \<longrightarrow> returns_on_axis y"
proof (rule mod_loop.raw_induct
    [where P = "\<lambda>abs_b r y. on_x_axis abs_b \<longrightarrow> on_x_axis r \<longrightarrow> returns_on_axis y", OF _ assms])
  fix f abs_b r y
  assume IH: "\<And>abs_b r y. f abs_b r = Some y \<Longrightarrow> on_x_axis abs_b \<longrightarrow> on_x_axis r \<longrightarrow> returns_on_axis y"
    and eq: "(case cn_abs r of Inl e \<Rightarrow> Some (Inl e)
              | Inr ar \<Rightarrow>
                  if cn_ge ar abs_b
                  then case mod_step abs_b r of None \<Rightarrow> None
                       | Some (Inl e) \<Rightarrow> Some (Inl e)
                       | Some (Inr r') \<Rightarrow> f abs_b r'
                  else Some (Inr r)) = Some y"
  show "on_x_axis abs_b \<longrightarrow> on_x_axis r \<longrightarrow> returns_on_axis y"
  proof (intro impI)
    assume ab: "on_x_axis abs_b" and r: "on_x_axis r"
    show "returns_on_axis y"
    proof (cases "cn_abs r")
      case (Inl e)
      have "y = Inl e" using eq by (simp add: Inl)
      then show ?thesis by simp
    next
      case (Inr ar)
      show ?thesis
      proof (cases "cn_ge ar abs_b")
        case False
        then have "y = Inr r" using eq by (simp add: Inr)
        then show ?thesis using r by simp
      next
        case True
        show ?thesis
        proof (cases "mod_step abs_b r")
          case None
          then show ?thesis using True eq by (simp add: Inr)
        next
          case (Some v)
          show ?thesis
          proof (cases v)
            case (Inl e)
            have "y = Inl e" using True eq by (simp add: Inr Some Inl)
            then show ?thesis by simp
          next
            case r': (Inr r')
            have "f abs_b r' = Some y" using True eq by (simp add: Inr Some r')
            moreover have "on_x_axis r'"
              using mod_step_axis [of abs_b r r'] Some r' ab r by simp
            ultimately show ?thesis using IH ab by blast
          qed
        qed
      qed
    qed
  qed
qed

lemma yoa_cn_mod:
  assumes "on_x_axis a" "on_x_axis b"
  shows "yields_on_axis (cn_mod a b)"
proof (cases "cn_isEqual b zero")
  case True
  then show ?thesis by (simp add: cn_mod_def)
next
  case False
  show ?thesis
  proof (cases "cn_abs b")
    case (Inl e)
    then show ?thesis using False by (simp add: cn_mod_def obind_def)
  next
    case (Inr abs_b)
    have ab: "on_x_axis abs_b" using cn_abs_Inr_axis [OF assms(2) Inr] .
    show ?thesis
    proof (cases "mod_loop abs_b (copy a)")
      case None
      then show ?thesis using False Inr by (simp add: cn_mod_def obind_def)
    next
      case (Some v)
      have v: "returns_on_axis v" using mod_loop_axis [OF Some] ab assms(1) by simp
      show ?thesis
      proof (cases v)
        case (Inl e)
        then show ?thesis using False Inr Some by (simp add: cn_mod_def obind_def)
      next
        case r: (Inr r)
        then have "on_x_axis r" using v by simp
        then show ?thesis
          using False Inr Some r ab roa_sub [of r abs_b] roa_add [of r abs_b]
          by (simp add: cn_mod_def obind_def)
      qed
    qed
  qed
qed

lemma cn_mod_axis: "cn_mod a b = Some (Inr r) \<Longrightarrow> on_x_axis a \<Longrightarrow> on_x_axis b \<Longrightarrow> on_x_axis r"
  using yoa_cn_mod [of a b] by simp










section \<open>Beyond the tolerance\<close>















section \<open>Floor division and remainder together\<close>






section \<open>The claims\<close>

text \<open>
  C9. \<open>CasNum.from_num(n)\<close> returns the CasNum zero, the origin point, for every
  integer \<open>n \<le> 0\<close>: a negative argument silently gives zero.
\<close>

theorem from_num_nonpositive:
  "n \<le> 0 \<Longrightarrow> from_num n = Inr zero"
  by (simp add: from_num_def zero_def origin_def)

theorem from_num_nonpositive_witness:
  "(- 3 :: int) \<le> 0 \<and> from_num (- 3) = Inr zero \<and> pnt zero = Point 0 0"
  using from_num_nonpositive [of "- 3"] by (simp add: zero_def origin_def)

text \<open>
  C5. The claim is that intersecting two parallel lines gives the point at infinity
  rather than failing. On the parallel lines \<open>y = 0\<close> and \<open>y = 1\<close> the determinant
  is zero and the source evaluates the unbound name \<open>zoo\<close>: the call raises NameError.
\<close>

theorem parallel_lines_raise:
  "parallel_lines_intersection = Inl NameError"
  by (simp add: parallel_lines_intersection_def Line_def line_of_def line_intersect_def
      line_get_intersection_def)

text \<open>
  C6. Equality of lines compares slope and intercept. As stated for all lines the claim
  fails: the distinct vertical lines \<open>x = 1\<close> and \<open>x = 2\<close> both have slope \<open>zoo\<close>
  and intercept \<open>zoo\<close> and compare equal.
\<close>

theorem distinct_vertical_lines_equal:
  "lines_equal (Point 1 0) (Point 1 1) (Point 2 0) (Point 2 1) = Inr (Some True)
   \<and> \<not> same_geometric_line (Point 1 0) (Point 1 1) (Point 2 0) (Point 2 1)"
  by (simp add: lines_equal_def Line_def line_of_def line_eq_def get_slope_def get_intercept_def
      num_div_def num_sub_def num_mul_def num_add_def same_geometric_line_def on_line_through_def
      rational_point_def)

text \<open>
  C6, amended. Two pairs of points with rational coordinates that span the same geometric
  line give equal lines, and so do two vertical lines neither of which is \<open>x = 0\<close>.
  Every other two lines compare unequal, whatever the coordinates: distinct lines one of
  which is not vertical, and the line \<open>x = 0\<close> against another vertical line (intercept
  \<open>nan\<close> against \<open>zoo\<close>).
\<close>

theorem line_equality:
  assumes "p1 \<noteq> p2" "q1 \<noteq> q2"
  shows "(rational_point p1 \<and> rational_point p2 \<and> rational_point q1 \<and> rational_point q2
          \<and> (same_geometric_line p1 p2 q1 q2 \<or> vertical_off_origin p1 p2 q1 q2)
            \<longrightarrow> lines_equal p1 p2 q1 q2 = Inr (Some True))
       \<and> (\<not> same_geometric_line p1 p2 q1 q2 \<and> \<not> vertical_off_origin p1 p2 q1 q2
            \<longrightarrow> lines_equal p1 p2 q1 q2 = Inr (Some False))"
  unfolding lines_equal_values lines_values_equal_char [OF assms] by simp

theorem line_equality_witness:
  "Point 0 1 \<noteq> Point 2 5 \<and> Point 1 3 \<noteq> Point 3 7
   \<and> rational_point (Point 0 1) \<and> rational_point (Point 2 5)
   \<and> rational_point (Point 1 3) \<and> rational_point (Point 3 7)
   \<and> same_geometric_line (Point 0 1) (Point 2 5) (Point 1 3) (Point 3 7)
   \<and> lines_equal (Point 0 1) (Point 2 5) (Point 1 3) (Point 3 7) = Inr (Some True)
   \<and> Point 0 0 \<noteq> Point 0 1 \<and> Point 1 0 \<noteq> Point 1 1
   \<and> \<not> same_geometric_line (Point 0 0) (Point 0 1) (Point 1 0) (Point 1 1)
   \<and> \<not> vertical_off_origin (Point 0 0) (Point 0 1) (Point 1 0) (Point 1 1)
   \<and> lines_equal (Point 0 0) (Point 0 1) (Point 1 0) (Point 1 1) = Inr (Some False)
   \<and> \<not> same_geometric_line (Point 1 0) (Point 1 1) (Point 0 0) (Point 1 1)
   \<and> \<not> vertical_off_origin (Point 1 0) (Point 1 1) (Point 0 0) (Point 1 1)
   \<and> lines_equal (Point 1 0) (Point 1 1) (Point 0 0) (Point 1 1) = Inr (Some False)"
  using line_equality [of "Point 0 1" "Point 2 5" "Point 1 3" "Point 3 7"]
    line_equality [of "Point 0 0" "Point 0 1" "Point 1 0" "Point 1 1"]
    line_equality [of "Point 1 0" "Point 1 1" "Point 0 0" "Point 1 1"]
  by (simp add: same_geometric_line_def on_line_through_def vertical_off_origin_def
      rational_point_def)


text \<open>
  C4. The claim is that disjoint circles and a circle strictly inside another have an empty
  intersection. The source tests only \<open>D < r1 + r2\<close>, which also holds under
  containment (its comment leaves that case to do), and then evaluates the two-point
  formula: for the circle of radius 1 around \<open>(1, 0)\<close> inside the circle of radius 3
  around the origin the radicand is negative and the result is not the empty list.
\<close>

theorem contained_circles_not_empty:
  "contained_circles_intersection = Inl NotReal \<and> contained_circles_intersection \<noteq> Inr []"
  by (simp add: contained_circles_intersection_def Circle_def circle_of_def isEqual_def circle_intersect_def
      circle_get_intersection_def Let_def cc_Q_def cc_radicand_def cc_U_def cc_W_def)


text \<open>
  C2. Exact division by a zero divisor raises ValueError, for every dividend; the claim
  that it returns zero fails at \<open>5 / 0\<close>.
\<close>

theorem truediv_by_zero_raises:
  "cn_isEqual other zero \<Longrightarrow> truediv self other = Inl ValueError"
  by (simp add: truediv_def)

theorem truediv_by_zero_raises_witness:
  "cn_isEqual zero zero \<and> truediv (CasNum (Point 5 0)) zero = Inl ValueError"
  using truediv_by_zero_raises [of zero "CasNum (Point 5 0)"]
  by (simp add: cn_isEqual_def isEqual_def)

theorem truediv_five_by_zero:
  "truediv (CasNum (Point 5 0)) zero \<noteq> Inr zero"
  by (simp add: truediv_def cn_isEqual_def isEqual_def)

text \<open>
  Claim C10: \<open>CasNum.sqrt\<close> applied to zero raises instead of returning zero. The
  construction halves \<open>0 + 1\<close>, so the circle around the origin has radius 1/2 and the
  perpendicular to the x-axis stands at \<open>q = - 1/2\<close>: it is tangent to the circle, the
  intersection is the single point \<open>(- 1/2, 0)\<close>, and unpacking it into two points raises
  ValueError.
\<close>

theorem sqrt_zero_raises:
  "cn_sqrt zero = Inl ValueError
   \<and> andthen (Circle origin (Point (1 / 2) 0)) (\<lambda>c.
       andthen (get_perpendicular_to_line_through_point (Point (- (1 / 2)) 0) (line_of origin unit)) (\<lambda>l.
         intersect_with_line c l)) = Inr [Point (- (1 / 2)) 0]
   \<and> unpack2 [Point (- (1 / 2)) 0] = Inl ValueError"
  by (simp add: cn_sqrt_zero sqrt_zero_tangent)

text \<open>
  Claim C7: the square root of a perfect square is exact. As stated the claim includes
  \<open>a = 0 = 0\<^sup>2\<close>, where the construction raises: \<open>cn(0).sqrt()\<close> is not \<open>cn(0)\<close>.
\<close>

theorem sqrt_of_zero_square_fails:
  "andthen (cn (0\<^sup>2)) cn_sqrt = Inl ValueError \<and> andthen (cn (0\<^sup>2)) cn_sqrt \<noteq> cn 0"
  by (simp add: cn_val iv_consts [symmetric] cn_sqrt_zero)

text \<open>
  The rest of claim C7 holds: for every integer \<open>k\<close> with \<open>1 \<le> k < 10\<^sup>5\<close> the square root of
  \<open>cn(k\<^sup>2)\<close> is \<open>cn(k)\<close>. The upper bound keeps every comparison of the construction
  clear of the tolerance \<open>10\<^sup>-\<^sup>2\<^sup>0\<close> used to select intersection points.
\<close>

theorem sqrt_of_square_exact:
  fixes k :: int
  assumes "1 \<le> k" and "k < 10 ^ 5"
  shows "andthen (cn (k\<^sup>2)) cn_sqrt = cn k"
  using cn_sqrt_square [OF assms] by (simp add: cn_val)

theorem sqrt_of_square_exact_witness:
  "(1::int) \<le> 5 \<and> (5::int) < 10 ^ 5 \<and> andthen (cn 25) cn_sqrt = cn 5 \<and> cn 5 = Inr (iv 5)"
  using sqrt_of_square_exact [of 5] by (simp add: cn_val)

text \<open>
  Claim C3: \<open>pow_mod(cn(a), cn(b), cn(n))\<close> equals \<open>cn(pow(a, b, n))\<close>. The loop reduces
  an intermediate only when it is strictly greater than \<open>n\<close>, so an intermediate equal to
  \<open>n\<close> is returned as it is: for \<open>a = 2\<close>, \<open>b = 1\<close>, \<open>n = 2\<close> the result is \<open>2\<close>, whereas
  \<open>pow(2, 1, 2) = 0\<close>.
\<close>

theorem pow_mod_not_reduced:
  "cn 2 = Inr (iv 2) \<and> cn 1 = Inr (iv 1)
   \<and> pow_mod (iv 2) (iv 1) (iv 2) = Some (Inr (iv 2))
   \<and> cn ((2 ^ 1) mod 2) = Inr (iv 0)
   \<and> iv 2 \<noteq> iv 0"
  by (simp add: cn_val pow_mod_2_1_2)







end
